theory Spec2Isabelle
  imports
    Complex_Main
    "HOL-Library.Char_ord"
    "HOL-Library.List_Lexorder"
    "HOL-Library.AList"
    "HOL-Library.Sublist"
begin

section \<open>Python values used by the three stages\<close>

text \<open>
  A Python \<open>str\<close> is modelled as a \<open>string\<close>: each \<open>char\<close> stands for one code point
  (below 256), so \<open>length\<close> is Python's \<open>len\<close>, and the order of \<open>Char_ord\<close> and
  \<open>List_Lexorder\<close> is Python's order on \<open>str\<close> (code point by code point).
\<close>

definition py_isspace :: "char \<Rightarrow> bool" where
  \<comment> \<open>the code points below 256 that \<open>str.strip()\<close> removes\<close>
  "py_isspace c =
     (let n = (of_char c :: nat)
      in (9 \<le> n \<and> n \<le> 13) \<or> (28 \<le> n \<and> n \<le> 32) \<or> n = 133 \<or> n = 160)"

definition strip :: "string \<Rightarrow> string" where
  "strip s = rev (dropWhile py_isspace (rev (dropWhile py_isspace s)))"

fun join :: "string \<Rightarrow> string list \<Rightarrow> string" where
  \<comment> \<open>\<open>sep.join(xs)\<close>\<close>
  "join sep [] = []"
| "join sep [x] = x"
| "join sep (x # y # ys) = x @ sep @ join sep (y # ys)"

function py_range :: "nat \<Rightarrow> nat \<Rightarrow> nat \<Rightarrow> nat list" where
  \<comment> \<open>\<open>range(start, stop, step)\<close> for a positive step\<close>
  "py_range start stop step =
     (if start < stop \<and> 0 < step then start # py_range (start + step) stop step else [])"
  by pat_completeness auto
termination
  by (relation "measure (\<lambda>(start, stop, step). stop - start)") auto

definition slice :: "'a list \<Rightarrow> nat \<Rightarrow> nat \<Rightarrow> 'a list" where
  \<comment> \<open>\<open>xs[i:j]\<close> for \<open>0 \<le> i \<le> j\<close>\<close>
  "slice xs i j = take (j - i) (drop i xs)"

definition rfind :: "char \<Rightarrow> string \<Rightarrow> nat option" where
  \<comment> \<open>\<open>s.rfind(c)\<close>: the index of the last occurrence, \<open>None\<close> for Python's \<open>-1\<close>\<close>
  "rfind c s =
     (let k = length (takeWhile (\<lambda>x. x \<noteq> c) (rev s))
      in if k = length s then None else Some (length s - 1 - k))"

definition stem :: "string \<Rightarrow> string" where
  \<comment> \<open>\<open>PurePath.stem\<close> of a file name: the name without its last suffix\<close>
  "stem name =
     (case rfind CHR ''.'' name of
        None \<Rightarrow> name
      | Some i \<Rightarrow> if 0 < i \<and> i < length name - 1 then take i name else name)"

definition str_of :: "string option \<Rightarrow> string" where
  \<comment> \<open>what an f-string prints for a value that is a \<open>str\<close> or \<open>None\<close>\<close>
  "str_of v = (case v of None \<Rightarrow> ''None'' | Some s \<Rightarrow> s)"

datatype exn =
    CollaboratorError string
  | OSError
  | UnicodeDecodeError
  | JSONDecodeError
  | TypeError
  | AttributeError

datatype jval =
    JNull
  | JBool bool
  | JNum real
  | JStr string
  | JArr "jval list"
  | JObj "(string \<times> jval) list"

section \<open>The data directory and the effects of a run\<close>

datatype dir = AudioDir | MetaDir | TransDir | SummDir

type_synonym path = "dir \<times> string"

text \<open>
  A file is classified by what the readers of this program get from it: \<open>Text s\<close> is a
  file that \<open>read()\<close> decodes to \<open>s\<close>, \<open>Json v\<close> a file on which \<open>json.load\<close> returns
  \<open>v\<close>, \<open>Binary\<close> any other content (an audio payload, a torn file).  The metadata
  directory is only ever read with \<open>json.load\<close> and the transcript directory only with
  \<open>read()\<close>, so every file of a real data directory falls into one class.
\<close>

datatype fcontent = Text string | Json jval | Binary

datatype event =
    Retrieve "string option"    \<comment> \<open>\<open>ydl.download([webpage_url])\<close> was called\<close>
  | Transcribe string           \<comment> \<open>\<open>model.transcribe(str(audio_path))\<close> was called\<close>
  | Abstractive string          \<comment> \<open>the transformer pipeline was called on a chunk\<close>
  | Extractive string           \<comment> \<open>the LexRank summarizer was called on a text\<close>
  | Wrote path                  \<comment> \<open>a file was opened for writing\<close>
  | Warn string exn             \<comment> \<open>a \<open>[WARN] Failed to ...\<close> line was printed for an item\<close>
  | Fallback exn                \<comment> \<open>the \<open>[WARN] Falling back ...\<close> line was printed\<close>

text \<open>
  The list \<open>files\<close> holds the directory entries in the order in which the operating
  system lists them; \<open>trace\<close> records the collaborator calls, the files opened for
  writing and the warnings printed, oldest first.
\<close>

record world =
  files :: "(path \<times> fcontent) list"
  trace :: "event list"

definition emit :: "event \<Rightarrow> world \<Rightarrow> world" where
  "emit e w = w\<lparr>trace := trace w @ [e]\<rparr>"

section \<open>The collaborators\<close>

text \<open>
  The libraries the stages call are parameters of the model, each a function that may
  raise: yt-dlp (\<open>extract_info\<close>, \<open>ydl_download\<close>, which names the audio files it
  leaves in the audio directory), faster-whisper (\<open>whisper_model\<close>: loading it may
  raise, and so may a transcription), the transformers pipeline (\<open>pipeline\<close>) and
  sumy's LexRank (\<open>lex_rank\<close>).  \<open>write_fault\<close> says what happens when a file is
  opened for writing: nothing, \<open>open\<close> raises, or the write raises after \<open>open\<close> has
  created the file, leaving the given content.
\<close>

datatype fault = NoFault | OpenFails | Torn fcontent

record raw_segment =
  seg_start :: real
  seg_end :: real
  seg_text :: string

record entry =
  entry_id :: "string option"
  entry_title :: "string option"
  entry_webpage_url :: "string option"
  entry_duration :: "real option"

record info =
  info_entries :: "entry option list option"   \<comment> \<open>\<open>info.get("entries")\<close>\<close>
  info_entry :: entry                         \<comment> \<open>the fields of \<open>info\<close> itself\<close>

record env =
  base_dir :: string
  extract_info :: "string \<Rightarrow> exn + info option"
  ydl_download :: "string option \<Rightarrow> exn + string list"
  whisper_model :: "exn + (string \<Rightarrow> exn + raw_segment list)"
  pipeline :: "exn + (string \<Rightarrow> exn + string)"
  lex_rank :: "string \<Rightarrow> nat \<Rightarrow> exn + string list"
  write_fault :: "path \<Rightarrow> fault"

section \<open>Files\<close>

definition dir_name :: "dir \<Rightarrow> string" where
  "dir_name d =
     (case d of AudioDir \<Rightarrow> ''audio'' | MetaDir \<Rightarrow> ''metadata''
      | TransDir \<Rightarrow> ''transcripts'' | SummDir \<Rightarrow> ''summaries'')"

definition path_str :: "env \<Rightarrow> path \<Rightarrow> string" where
  \<comment> \<open>\<open>str(BASE_DIR / "data" / dir / name)\<close>\<close>
  "path_str env p = base_dir env @ ''/data/'' @ dir_name (fst p) @ ''/'' @ snd p"

definition exists_file :: "world \<Rightarrow> path \<Rightarrow> bool" where
  "exists_file w p = (map_of (files w) p \<noteq> None)"

definition listdir :: "world \<Rightarrow> dir \<Rightarrow> string list" where
  "listdir w d = map snd (filter (\<lambda>p. fst p = d) (map fst (files w)))"

definition then_do ::
  "(exn + 'a) \<times> world \<Rightarrow> ('a \<Rightarrow> world \<Rightarrow> (exn + 'b) \<times> world) \<Rightarrow> (exn + 'b) \<times> world" where
  \<comment> \<open>statement sequencing inside a \<open>try\<close> block: an exception skips what follows\<close>
  "then_do r k = (case r of (Inl e, w) \<Rightarrow> (Inl e, w) | (Inr x, w) \<Rightarrow> k x w)"

definition write_file :: "env \<Rightarrow> path \<Rightarrow> fcontent \<Rightarrow> world \<Rightarrow> (exn + unit) \<times> world" where
  \<comment> \<open>\<open>with open(p, "w") as f: f.write(c)\<close> or \<open>json.dump(c, f)\<close>\<close>
  "write_file env p c w =
     (case write_fault env p of
        OpenFails \<Rightarrow> (Inl OSError, w)
      | Torn c' \<Rightarrow> (Inl OSError, emit (Wrote p) (w\<lparr>files := AList.update p c' (files w)\<rparr>))
      | NoFault \<Rightarrow> (Inr (), emit (Wrote p) (w\<lparr>files := AList.update p c (files w)\<rparr>)))"

definition read_text :: "world \<Rightarrow> path \<Rightarrow> exn + string" where
  \<comment> \<open>\<open>with open(p, "r", encoding="utf-8") as f: f.read()\<close>\<close>
  "read_text w p =
     (case map_of (files w) p of
        None \<Rightarrow> Inl OSError
      | Some (Text s) \<Rightarrow> Inr s
      | Some _ \<Rightarrow> Inl UnicodeDecodeError)"

definition json_load :: "world \<Rightarrow> path \<Rightarrow> exn + jval" where
  \<comment> \<open>\<open>with open(p, "r", encoding="utf-8") as f: json.load(f)\<close>\<close>
  "json_load w p =
     (case map_of (files w) p of
        None \<Rightarrow> Inl OSError
      | Some (Json v) \<Rightarrow> Inr v
      | Some _ \<Rightarrow> Inl JSONDecodeError)"

definition set_item :: "jval \<Rightarrow> string \<Rightarrow> jval \<Rightarrow> exn + jval" where
  \<comment> \<open>\<open>meta[key] = value\<close>: on a dict the key keeps its place or is appended; a
      JSON value that is no object raises \<open>TypeError\<close>\<close>
  "set_item meta key v =
     (case meta of JObj kvs \<Rightarrow> Inr (JObj (AList.update key v kvs)) | _ \<Rightarrow> Inl TypeError)"

definition update_meta ::
  "env \<Rightarrow> string \<Rightarrow> string \<Rightarrow> path \<Rightarrow> world \<Rightarrow> (exn + unit) \<times> world" where
  \<comment> \<open>the block \<open>if meta_file.exists(): ...\<close> that the Transcriber and the Summarizer
      share: read the record, set one path field, write the record back\<close>
  "update_meta env video_id key target w =
     (let meta_file = (MetaDir, video_id @ ''.json'')
      in if exists_file w meta_file
         then then_do (json_load w meta_file, w) (\<lambda>meta w1.
              then_do (set_item meta key (JStr (path_str env target)), w1) (\<lambda>meta' w2.
                write_file env meta_file (Json meta') w2))
         else (Inr (), w))"

section \<open>downloader.py\<close>

definition opt_str :: "string option \<Rightarrow> jval" where
  "opt_str v = (case v of None \<Rightarrow> JNull | Some s \<Rightarrow> JStr s)"

definition opt_num :: "real option \<Rightarrow> jval" where
  "opt_num v = (case v of None \<Rightarrow> JNull | Some x \<Rightarrow> JNum x)"

definition store_audio :: "string list \<Rightarrow> world \<Rightarrow> world" where
  \<comment> \<open>the audio files a retrieval leaves behind\<close>
  "store_audio names w =
     foldl (\<lambda>w n. w\<lparr>files := AList.update (AudioDir, n) Binary (files w)\<rparr>) w names"


definition find_audio :: "world \<Rightarrow> string \<Rightarrow> path option" where
  \<comment> \<open>lines 59 to 63: the expected name, else the first file \<open>video_id.*\<close>, else \<open>None\<close>\<close>
  "find_audio w video_id =
     (let mp3_path = (AudioDir, video_id @ ''.mp3'')
      in if exists_file w mp3_path then Some mp3_path
         else (case filter (prefix (video_id @ ''.'')) (listdir w AudioDir) of
                 [] \<Rightarrow> None
               | m # _ \<Rightarrow> Some (AudioDir, m)))"

definition make_meta :: "env \<Rightarrow> entry \<Rightarrow> path option \<Rightarrow> jval" where
  "make_meta env e mp3_path =
     JObj [(''video_id'', opt_str (entry_id e)),
           (''title'', opt_str (entry_title e)),
           (''webpage_url'', opt_str (entry_webpage_url e)),
           (''duration'', opt_num (entry_duration e)),
           (''audio_path'', opt_str (map_option (path_str env) mp3_path))]"

fun download_loop ::
  "env \<Rightarrow> entry option list \<Rightarrow> jval list \<Rightarrow> world \<Rightarrow> (exn + jval list) \<times> world" where
  \<comment> \<open>the \<open>for entry in entries\<close> loop; only the retrieval call is inside a \<open>try\<close>\<close>
  "download_loop env [] results w = (Inr results, w)"
| "download_loop env (None # rest) results w = download_loop env rest results w"
| "download_loop env (Some e # rest) results w =
     (let video_id = str_of (entry_id e);
          w1 = emit (Retrieve (entry_webpage_url e)) w
      in case ydl_download env (entry_webpage_url e) of
           Inl x \<Rightarrow> download_loop env rest results (emit (Warn (str_of (entry_webpage_url e)) x) w1)
         | Inr stored \<Rightarrow>
             (let w2 = store_audio stored w1;
                  meta = make_meta env e (find_audio w2 video_id)
              in case write_file env (MetaDir, video_id @ ''.json'') (Json meta) w2 of
                   (Inl x, w3) \<Rightarrow> (Inl x, w3)
                 | (Inr _, w3) \<Rightarrow> download_loop env rest (results @ [meta]) w3))"

definition download :: "env \<Rightarrow> string \<Rightarrow> world \<Rightarrow> (exn + jval list) \<times> world" where
  "download env url w =
     (case extract_info env url of
        Inl x \<Rightarrow> (Inl x, w)
      | Inr None \<Rightarrow> (Inl AttributeError, w)
      | Inr (Some info) \<Rightarrow>
          (let entries = (case info_entries info of
                            None \<Rightarrow> [Some (info_entry info)]
                          | Some [] \<Rightarrow> [Some (info_entry info)]
                          | Some es \<Rightarrow> es)
           in download_loop env entries [] w))"

section \<open>transcriber.py\<close>

definition transcribe_audio ::
  "env \<Rightarrow> path \<Rightarrow> (string \<Rightarrow> exn + raw_segment list) \<Rightarrow> world
     \<Rightarrow> (exn + string \<times> jval) \<times> world" where
  "transcribe_audio env audio_path model w =
     (case model (path_str env audio_path) of
        Inl x \<Rightarrow> (Inl x, emit (Transcribe (path_str env audio_path)) w)
      | Inr segments \<Rightarrow>
          (Inr (join '' '' (map (\<lambda>seg. strip (seg_text seg)) segments),
                JArr (map (\<lambda>seg. JObj [(''start'', JNum (seg_start seg)),
                                        (''end'', JNum (seg_end seg)),
                                        (''text'', JStr (strip (seg_text seg)))]) segments)),
           emit (Transcribe (path_str env audio_path)) w))"

definition audio_files :: "world \<Rightarrow> string list" where
  \<comment> \<open>\<open>sorted(AUDIO_DIR.glob("*.mp3"))\<close>, as file names\<close>
  "audio_files w = sort (filter (suffix ''.mp3'') (listdir w AudioDir))"

definition transcribe_try ::
  "env \<Rightarrow> (string \<Rightarrow> exn + raw_segment list) \<Rightarrow> string \<Rightarrow> world \<Rightarrow> (exn + unit) \<times> world" where
  \<comment> \<open>the body of the \<open>try\<close>, lines 57 to 72\<close>
  "transcribe_try env model name w =
     (let video_id = stem name;
          transcript_path = (TransDir, video_id @ ''.txt'');
          transcript_json = (TransDir, video_id @ ''.json'')
      in then_do (transcribe_audio env (AudioDir, name) model w) (\<lambda>(text, segments) w1.
         then_do (write_file env transcript_path (Text text) w1) (\<lambda>_ w2.
         then_do (write_file env transcript_json (Json segments) w2) (\<lambda>_ w3.
           update_meta env video_id ''transcript_path'' transcript_path w3))))"

definition transcribe_item ::
  "env \<Rightarrow> (string \<Rightarrow> exn + raw_segment list) \<Rightarrow> world \<Rightarrow> string \<Rightarrow> world" where
  \<comment> \<open>one turn of the loop of \<open>main\<close> for the audio file \<open>name\<close>\<close>
  "transcribe_item env model w name =
     (if exists_file w (TransDir, stem name @ ''.txt'') then w
      else (case transcribe_try env model name w of
              (Inl x, w') \<Rightarrow> emit (Warn name x) w'
            | (Inr _, w') \<Rightarrow> w'))"

definition transcriber_main :: "env \<Rightarrow> world \<Rightarrow> (exn + unit) \<times> world" where
  "transcriber_main env w =
     (case whisper_model env of
        Inl x \<Rightarrow> (Inl x, w)
      | Inr model \<Rightarrow> (Inr (), foldl (transcribe_item env model) w (audio_files w)))"

section \<open>summarizer.py\<close>

definition max_chunk :: nat where
  "max_chunk = 5000"

definition chunks_of :: "string \<Rightarrow> string list" where
  \<comment> \<open>\<open>[text[i:i + max_chunk] for i in range(0, len(text), max_chunk)]\<close>\<close>
  "chunks_of text =
     map (\<lambda>i. slice text i (i + max_chunk)) (py_range 0 (length text) max_chunk)"

fun summarize_chunks ::
  "(string \<Rightarrow> exn + string) option \<Rightarrow> string list \<Rightarrow> string list \<Rightarrow> world
     \<Rightarrow> (exn + string list) \<times> world" where
  \<comment> \<open>the \<open>for chunk in chunks\<close> loop; a raising call ends it, and so does calling
      \<open>None\<close>, the value of \<open>summarizer\<close> when the pipeline could not be loaded\<close>
  "summarize_chunks summarizer [] summaries w = (Inr summaries, w)"
| "summarize_chunks None (chunk # rest) summaries w = (Inl TypeError, w)"
| "summarize_chunks (Some call) (chunk # rest) summaries w =
     (case call chunk of
        Inl x \<Rightarrow> (Inl x, emit (Abstractive chunk) w)
      | Inr summary \<Rightarrow>
          summarize_chunks (Some call) rest (summaries @ [strip summary])
            (emit (Abstractive chunk) w))"

definition abstractive_summary ::
  "string \<Rightarrow> (string \<Rightarrow> exn + string) option \<Rightarrow> world \<Rightarrow> (exn + string) \<times> world" where
  "abstractive_summary text summarizer w =
     (case summarize_chunks summarizer (chunks_of text) [] w of
        (Inl x, w') \<Rightarrow> (Inl x, w')
      | (Inr summaries, w') \<Rightarrow> (Inr (join '' '' summaries), w'))"

definition extractive_summary :: "env \<Rightarrow> string \<Rightarrow> world \<Rightarrow> (exn + string) \<times> world" where
  \<comment> \<open>called with the default \<open>sentence_count = 5\<close>\<close>
  "extractive_summary env text w =
     (case lex_rank env text 5 of
        Inl x \<Rightarrow> (Inl x, emit (Extractive text) w)
      | Inr sentences \<Rightarrow> (Inr (join '' '' sentences), emit (Extractive text) w))"

definition transcripts :: "world \<Rightarrow> string list" where
  \<comment> \<open>\<open>sorted(TRANS_DIR.glob("*.txt"))\<close>, as file names\<close>
  "transcripts w = sort (filter (suffix ''.txt'') (listdir w TransDir))"

definition summarize_try ::
  "env \<Rightarrow> bool \<Rightarrow> (string \<Rightarrow> exn + string) option \<Rightarrow> string \<Rightarrow> world
     \<Rightarrow> (exn + unit) \<times> world" where
  \<comment> \<open>the body of the \<open>try\<close>, lines 82 to 104; \<open>continue\<close> on a short text is the early
      normal end\<close>
  "summarize_try env use_extractive summarizer name w =
     (let video_id = stem name;
          output_file = (SummDir, video_id @ ''_summary.txt'')
      in then_do (read_text w (TransDir, name), w) (\<lambda>raw w1.
         let text = strip raw
         in if length text < 100 then (Inr (), w1)
            else
              then_do (if use_extractive then extractive_summary env text w1
                       else abstractive_summary text summarizer w1) (\<lambda>summary_text w2.
              then_do (write_file env output_file (Text summary_text) w2) (\<lambda>_ w3.
                update_meta env video_id ''summary_path'' output_file w3))))"

definition summarize_item ::
  "env \<Rightarrow> bool \<Rightarrow> (string \<Rightarrow> exn + string) option \<Rightarrow> world \<Rightarrow> string \<Rightarrow> world" where
  \<comment> \<open>one turn of the loop of \<open>main\<close> for the transcript file \<open>name\<close>\<close>
  "summarize_item env use_extractive summarizer w name =
     (if exists_file w (SummDir, stem name @ ''_summary.txt'') then w
      else (case summarize_try env use_extractive summarizer name w of
              (Inl x, w') \<Rightarrow> emit (Warn name x) w'
            | (Inr _, w') \<Rightarrow> w'))"

definition choose_strategy ::
  "env \<Rightarrow> world \<Rightarrow> (bool \<times> (string \<Rightarrow> exn + string) option) \<times> world" where
  \<comment> \<open>lines 62 to 68: \<open>use_extractive\<close> and \<open>summarizer\<close>, set before the loop\<close>
  "choose_strategy env w =
     (case pipeline env of
        Inl x \<Rightarrow> ((True, None), emit (Fallback x) w)
      | Inr call \<Rightarrow> ((False, Some call), w))"

definition summarizer_main :: "env \<Rightarrow> world \<Rightarrow> world" where
  "summarizer_main env w =
     (case choose_strategy env w of
        ((use_extractive, summarizer), w0) \<Rightarrow>
          foldl (summarize_item env use_extractive summarizer) w0 (transcripts w0))"

section \<open>Vocabulary of the proofs\<close>

definition changes_only :: "path set \<Rightarrow> event set \<Rightarrow> world \<Rightarrow> world \<Rightarrow> bool" where
  "changes_only S E w w' \<longleftrightarrow>
     (\<forall>p. p \<notin> S \<longrightarrow> map_of (files w') p = map_of (files w) p) \<and>
     (\<forall>p. exists_file w p \<longrightarrow> exists_file w' p) \<and>
     (\<forall>d. d \<notin> fst ` S \<longrightarrow> listdir w' d = listdir w d) \<and>
     (\<exists>es. trace w' = trace w @ es \<and> set es \<subseteq> E)"

definition transcript_paths :: "string \<Rightarrow> path set" where
  "transcript_paths video_id =
     {(TransDir, video_id @ ''.txt''), (TransDir, video_id @ ''.json''),
      (MetaDir, video_id @ ''.json'')}"

definition transcribe_events :: "env \<Rightarrow> string \<Rightarrow> event set" where
  "transcribe_events env name =
     insert (Transcribe (path_str env (AudioDir, name)))
       (Wrote ` transcript_paths (stem name) \<union> range (Warn name))"

definition new_events :: "world \<Rightarrow> world \<Rightarrow> event list" where
  "new_events w w' = drop (length (trace w)) (trace w')"

definition finish_item :: "string \<Rightarrow> (exn + unit) \<times> world \<Rightarrow> world" where
  "finish_item name r = (case r of (Inl x, w') \<Rightarrow> emit (Warn name x) w' | (Inr _, w') \<Rightarrow> w')"

definition transcribed :: "env \<Rightarrow> string \<Rightarrow> raw_segment list \<Rightarrow> world \<Rightarrow> world" where
  "transcribed env name segs w =
     emit (Wrote (TransDir, stem name @ ''.json''))
       (emit (Wrote (TransDir, stem name @ ''.txt''))
          (emit (Transcribe (path_str env (AudioDir, name))) w)
        \<lparr>files :=
           AList.update (TransDir, stem name @ ''.json'')
             (Json (JArr (map (\<lambda>seg. JObj [(''start'', JNum (seg_start seg)),
                                            (''end'', JNum (seg_end seg)),
                                            (''text'', JStr (strip (seg_text seg)))]) segs)))
             (AList.update (TransDir, stem name @ ''.txt'')
                (Text (join '' '' (map (\<lambda>seg. strip (seg_text seg)) segs))) (files w))\<rparr>)"

definition summary_paths :: "string \<Rightarrow> path set" where
  "summary_paths video_id = {(SummDir, video_id @ ''_summary.txt''), (MetaDir, video_id @ ''.json'')}"

definition summarize_events :: "bool \<Rightarrow> string \<Rightarrow> event set" where
  "summarize_events use_extractive name =
     (if use_extractive then range Extractive else range Abstractive)
       \<union> Wrote ` summary_paths (stem name) \<union> range (Warn name)"

definition store_summary :: "env \<Rightarrow> string \<Rightarrow> string \<Rightarrow> world \<Rightarrow> (exn + unit) \<times> world" where
  \<comment> \<open>lines 94 to 104 of summarizer.py: write the summary, then update the record\<close>
  "store_summary env name summary_text w =
     then_do (write_file env (SummDir, stem name @ ''_summary.txt'') (Text summary_text) w)
       (\<lambda>_ w3. update_meta env (stem name) ''summary_path''
                  (SummDir, stem name @ ''_summary.txt'') w3)"

definition pending :: "world \<Rightarrow> string \<Rightarrow> string \<Rightarrow> bool" where
  \<comment> \<open>the transcript file \<open>name\<close> is one the Summarizer will summarize: it is listed, no
      other listed transcript has its stem (and so its summary file), its summary does
      not exist, and it reads as \<open>raw\<close>, of at least 100 characters once trimmed\<close>
  "pending w name raw \<longleftrightarrow>
     name \<in> set (transcripts w) \<and>
     (\<forall>m \<in> set (transcripts w). m \<noteq> name \<longrightarrow> stem m \<noteq> stem name) \<and>
     \<not> exists_file w (SummDir, stem name @ ''_summary.txt'') \<and>
     read_text w (TransDir, name) = Inr raw \<and>
     \<not> length (strip raw) < 100"



section \<open>Example inputs\<close>

definition demo_model :: "string \<Rightarrow> exn + raw_segment list" where
  "demo_model p =
     Inr [\<lparr>seg_start = 0, seg_end = 2, seg_text = '' hello ''\<rparr>,
          \<lparr>seg_start = 2, seg_end = 3, seg_text = ''world ''\<rparr>]"

definition demo_env :: env where
  "demo_env =
     \<lparr>base_dir = ''/app'',
      extract_info = (\<lambda>url. Inr None),
      ydl_download = (\<lambda>url. Inr []),
      whisper_model = Inr demo_model,
      pipeline = Inl (CollaboratorError ''no model''),
      lex_rank = (\<lambda>text n. Inr [take 10 text]),
      write_fault = (\<lambda>p. NoFault)\<rparr>"

definition demo_world :: world where
  \<comment> \<open>\<open>x\<close> has a transcript text but no segment file; \<open>y\<close> is not transcribed yet\<close>
  "demo_world =
     \<lparr>files = [((AudioDir, ''x.mp3''), Binary),
               ((AudioDir, ''y.mp3''), Binary),
               ((TransDir, ''x.txt''), Text ''old''),
               ((MetaDir, ''x.json''), Json (JObj [(''video_id'', JStr ''x''),
                   (''audio_path'', JStr ''/app/data/audio/x.mp3'')])),
               ((MetaDir, ''y.json''), Json (JObj [(''video_id'', JStr ''y''),
                   (''audio_path'', JStr ''/app/data/audio/y.mp3'')]))],
      trace = []\<rparr>"

definition json_fault_env :: env where
  \<comment> \<open>as \<open>demo_env\<close>, but the segment file of \<open>y\<close> cannot be opened for writing\<close>
  "json_fault_env =
     demo_env\<lparr>write_fault := (\<lambda>p. if p = (TransDir, ''y.json'') then OpenFails else NoFault)\<rparr>"

definition demo_call :: "string \<Rightarrow> exn + string" where
  "demo_call chunk = Inr ('' sum of '' @ take 3 chunk @ '' '')"

definition abstractive_env :: env where
  \<comment> \<open>as \<open>demo_env\<close>, but the transformer pipeline loads\<close>
  "abstractive_env = demo_env\<lparr>pipeline := Inr demo_call\<rparr>"

definition summ_world :: world where
  \<comment> \<open>\<open>a\<close> has a transcript of 120 characters, \<open>b\<close> one of 5 after trimming\<close>
  "summ_world =
     \<lparr>files = [((TransDir, ''a.txt''), Text (replicate 120 CHR ''a'')),
               ((TransDir, ''b.txt''), Text ''  short  ''),
               ((MetaDir, ''a.json''), Json (JObj [(''video_id'', JStr ''a''),
                   (''audio_path'', JStr ''/app/data/audio/a.mp3''),
                   (''transcript_path'', JStr ''/app/data/transcripts/a.txt'')])),
               ((MetaDir, ''b.json''), Json (JObj [(''video_id'', JStr ''b''),
                   (''audio_path'', JNull)]))],
      trace = []\<rparr>"

definition e_abc :: entry where
  "e_abc = \<lparr>entry_id = Some ''abc'', entry_title = Some ''A talk'',
            entry_webpage_url = Some ''https://v/abc'', entry_duration = Some 61\<rparr>"

definition e_xyz :: entry where
  "e_xyz = \<lparr>entry_id = Some ''xyz'', entry_title = None,
            entry_webpage_url = Some ''https://v/xyz'', entry_duration = None\<rparr>"

definition e_bad :: entry where
  "e_bad = \<lparr>entry_id = Some ''bad'', entry_title = Some ''Gone'',
            entry_webpage_url = Some ''https://v/bad'', entry_duration = Some 5\<rparr>"

definition fetch_env :: env where
  \<comment> \<open>a playlist of three items and a hole: retrieval of \<open>abc\<close> leaves \<open>abc.webm\<close>,
      retrieval of \<open>xyz\<close> returns without leaving a file, retrieval of \<open>bad\<close> raises\<close>
  "fetch_env =
     demo_env
       \<lparr>extract_info := (\<lambda>url. Inr (Some \<lparr>info_entries = Some [Some e_abc, None, Some e_xyz,
                                                                 Some e_bad],
                                             info_entry = e_abc\<rparr>)),
        ydl_download := (\<lambda>url. if url = Some ''https://v/abc'' then Inr [''abc.webm'']
                                else if url = Some ''https://v/xyz'' then Inr []
                                else Inl (CollaboratorError ''unavailable''))\<rparr>"

definition empty_world :: world where
  "empty_world = \<lparr>files = [], trace = []\<rparr>"

definition mixed_world :: world where
  \<comment> \<open>an audio directory with three mp3 files and one file of another extension\<close>
  "mixed_world =
     \<lparr>files = [((AudioDir, ''b.mp3''), Binary), ((AudioDir, ''abc.webm''), Binary),
               ((AudioDir, ''a.mp3''), Binary), ((AudioDir, ''B.mp3''), Binary)],
      trace = []\<rparr>"

section \<open>Chunking\<close>

lemma py_range_unfold:
  "py_range start stop step =
     (if start < stop \<and> 0 < step then start # py_range (start + step) stop step else [])"
  by (rule py_range.simps)

declare py_range.simps [simp del]

lemma div_add_self2_Suc: "0 < step \<Longrightarrow> (a + step) div step = Suc (a div step)"
  for a step :: nat
  by simp

lemma length_py_range:
  "0 < step \<Longrightarrow> length (py_range start stop step) = (stop - start + (step - 1)) div step"
proof (induction start stop step rule: py_range.induct)
  case (1 start stop step)
  show ?case
  proof (cases "start < stop")
    case True
    note lt = True
    have unf: "length (py_range start stop step)
                 = Suc (length (py_range (start + step) stop step))"
      using lt "1.prems" by (subst py_range_unfold) simp
    have ih: "length (py_range (start + step) stop step)
                = (stop - (start + step) + (step - 1)) div step"
      using "1.IH" lt "1.prems" by blast
    show ?thesis
    proof (cases "start + step \<le> stop")
      case True
      have "stop - start + (step - 1) = (stop - (start + step) + (step - 1)) + step"
        using True "1.prems" by linarith
      then have "(stop - start + (step - 1)) div step
                   = Suc ((stop - (start + step) + (step - 1)) div step)"
        using "1.prems" by (simp only: div_add_self2_Suc)
      with unf ih show ?thesis by presburger
    next
      case False
      have a: "step \<le> stop - start + (step - 1)" using lt "1.prems" by linarith
      have b: "stop - start + (step - 1) < 2 * step" using False "1.prems" by linarith
      have one: "(stop - start + (step - 1)) div step = 1"
        using a b by (metis Suc_1 div_nat_eqI mult.commute mult_Suc_right nat_mult_1_right)
      have zero: "(stop - (start + step) + (step - 1)) div step = 0"
        using False "1.prems" by simp
      from unf ih one zero show ?thesis by presburger
    qed
  next
    case False
    then show ?thesis
      using "1.prems" by (subst py_range_unfold) simp
  qed
qed


lemma concat_chunks_from:
  "0 < c \<Longrightarrow>
     concat (map (\<lambda>i. slice text i (i + c)) (py_range start (length text) c)) = drop start text"
proof (induction start "length text" c rule: py_range.induct)
  case (1 start step)
  show ?case
  proof (cases "start < length text")
    case True
    have "concat (map (\<lambda>i. slice text i (i + step)) (py_range start (length text) step))
            = slice text start (start + step)
              @ concat (map (\<lambda>i. slice text i (i + step))
                  (py_range (start + step) (length text) step))"
      using True "1.prems" by (subst py_range_unfold) simp
    also have "\<dots> = take step (drop start text) @ drop (start + step) text"
      using "1.hyps" True "1.prems" by (simp add: slice_def)
    also have "\<dots> = drop start text"
      by (metis add.commute append_take_drop_id drop_drop)
    finally show ?thesis .
  next
    case False
    then show ?thesis by (subst py_range_unfold) simp
  qed
qed

lemma concat_chunks_of: "concat (chunks_of text) = text"
  using concat_chunks_from [of max_chunk "text" 0] by (simp add: chunks_of_def max_chunk_def)

lemma length_chunks_of: "length (chunks_of text) = (length text + 4999) div 5000"
  by (simp add: chunks_of_def max_chunk_def length_py_range)

lemma ceiling_5000: "int ((n + 4999) div 5000) = \<lceil>real n / 5000\<rceil>"
  by linarith

text \<open>
  C9.  The chunks of a text, concatenated in order, are the text, and there are
  \<open>\<lceil>len(text) / 5000\<rceil>\<close> of them (none for the empty text).
\<close>

theorem chunk_decomposition_lossless:
  "concat (chunks_of text) = text \<and>
   int (length (chunks_of text)) = \<lceil>real (length text) / 5000\<rceil>"
  using concat_chunks_of [of "text"] length_chunks_of [of "text"] ceiling_5000 [of "length text"]
  by simp

section \<open>The abstractive path\<close>

lemma summarize_chunks_ok:
  "\<forall>c \<in> set cs. call c = Inr (f c) \<Longrightarrow>
     summarize_chunks (Some call) cs acc w
       = (Inr (acc @ map (\<lambda>c. strip (f c)) cs),
          w\<lparr>trace := trace w @ map Abstractive cs\<rparr>)"
  by (induction cs arbitrary: acc w) (simp_all add: emit_def)

lemma nth_py_range:
  "0 < step \<Longrightarrow> k < length (py_range start stop step) \<Longrightarrow>
     py_range start stop step ! k = start + step * k"
proof (induction start stop step arbitrary: k rule: py_range.induct)
  case (1 start stop step)
  show ?case
  proof (cases "start < stop")
    case True
    have unf: "py_range start stop step = start # py_range (start + step) stop step"
      using True "1.prems"(1) by (subst py_range_unfold) simp
    show ?thesis
    proof (cases k)
      case 0
      then show ?thesis by (simp add: unf)
    next
      case (Suc j)
      have "j < length (py_range (start + step) stop step)"
        using "1.prems"(2) Suc unf by simp
      then have "py_range (start + step) stop step ! j = start + step + step * j"
        using "1.IH" True "1.prems"(1) by blast
      then show ?thesis by (simp add: unf Suc)
    qed
  next
    case False
    then have "py_range start stop step = []" by (subst py_range_unfold) simp
    with "1.prems"(2) show ?thesis by simp
  qed
qed

lemma py_range_explicit:
  "0 < step \<Longrightarrow>
     py_range start stop step
       = map (\<lambda>k. start + step * k) [0 ..< (stop - start + (step - 1)) div step]"
  by (rule nth_equalityI) (simp_all add: length_py_range nth_py_range)

lemma chunks_of_explicit:
  "chunks_of text
     = map (\<lambda>k. take 5000 (drop (5000 * k) text)) [0 ..< (length text + 4999) div 5000]"
  by (simp add: chunks_of_def max_chunk_def py_range_explicit slice_def comp_def)

lemma chunks_of_12000:
  "length text = 12000 \<Longrightarrow>
     chunks_of text = [take 5000 text, take 5000 (drop 5000 text), drop 10000 text]"
  by (simp add: chunks_of_def max_chunk_def py_range_unfold slice_def)

text \<open>
  C5.  The chunks of a text are its consecutive slices of 5000 characters (the \<open>k\<close>-th
  chunk is \<open>text[5000 k : 5000 k + 5000]\<close>, for \<open>k\<close> below \<open>\<lceil>len(text) / 5000\<rceil>\<close>), and
  together they are the text.  When the summarization call returns on every chunk (\<open>f\<close>
  names what it returns), the abstractive path calls it once per chunk, in chunk order
  and on nothing else, and returns the trimmed chunk summaries joined by single spaces in
  that order.  A text of 12000 characters has exactly the 3 chunks \<open>text[:5000]\<close>,
  \<open>text[5000:10000]\<close> and \<open>text[10000:]\<close>, and its summary is the three trimmed chunk
  summaries with one space between neighbours.
\<close>

theorem chunked_summary_reassembly:
  assumes "\<forall>c \<in> set (chunks_of text). call c = Inr (f c)"
  shows "chunks_of text
           = map (\<lambda>k. take 5000 (drop (5000 * k) text)) [0 ..< (length text + 4999) div 5000]
         \<and> concat (chunks_of text) = text
         \<and> abstractive_summary text (Some call) w
           = (Inr (join '' '' (map (\<lambda>c. strip (f c)) (chunks_of text))),
              w\<lparr>trace := trace w @ map Abstractive (chunks_of text)\<rparr>)
         \<and> (length text = 12000 \<longrightarrow>
               chunks_of text = [take 5000 text, take 5000 (drop 5000 text), drop 10000 text]
             \<and> abstractive_summary text (Some call) w
               = (Inr (strip (f (take 5000 text)) @ '' '' @ strip (f (take 5000 (drop 5000 text)))
                       @ '' '' @ strip (f (drop 10000 text))),
                  w\<lparr>trace := trace w @ [Abstractive (take 5000 text),
                        Abstractive (take 5000 (drop 5000 text)),
                        Abstractive (drop 10000 text)]\<rparr>))"
proof -
  have run: "abstractive_summary text (Some call) w
           = (Inr (join '' '' (map (\<lambda>c. strip (f c)) (chunks_of text))),
              w\<lparr>trace := trace w @ map Abstractive (chunks_of text)\<rparr>)"
    using summarize_chunks_ok [OF assms, of "[]" w] by (simp add: abstractive_summary_def)
  have twelve: "chunks_of text = [take 5000 text, take 5000 (drop 5000 text), drop 10000 text]
             \<and> abstractive_summary text (Some call) w
               = (Inr (strip (f (take 5000 text)) @ '' '' @ strip (f (take 5000 (drop 5000 text)))
                       @ '' '' @ strip (f (drop 10000 text))),
                  w\<lparr>trace := trace w @ [Abstractive (take 5000 text),
                        Abstractive (take 5000 (drop 5000 text)),
                        Abstractive (drop 10000 text)]\<rparr>)"
    if "length text = 12000"
    using run by (simp add: chunks_of_12000 [OF that])
  from chunks_of_explicit [of "text"] concat_chunks_of [of "text"] run twelve
  show ?thesis by blast
qed

theorem chunked_summary_reassembly_witness:
  "length (replicate 5000 CHR ''a'' @ replicate 5000 CHR ''b'' @ replicate 2000 CHR ''c'') = 12000
   \<and> chunks_of (replicate 5000 CHR ''a'' @ replicate 5000 CHR ''b'' @ replicate 2000 CHR ''c'')
       = [replicate 5000 CHR ''a'', replicate 5000 CHR ''b'', replicate 2000 CHR ''c'']
   \<and> abstractive_summary
         (replicate 5000 CHR ''a'' @ replicate 5000 CHR ''b'' @ replicate 2000 CHR ''c'')
         (Some (\<lambda>c. Inr ('' s'' @ [hd c] @ '' ''))) \<lparr>files = [], trace = []\<rparr>
       = (Inr ''sa sb sc'',
          \<lparr>files = [],
           trace = [Abstractive (replicate 5000 CHR ''a''),
                    Abstractive (replicate 5000 CHR ''b''),
                    Abstractive (replicate 2000 CHR ''c'')]\<rparr>)"
proof -
  let ?T = "replicate 5000 CHR ''a'' @ replicate 5000 CHR ''b'' @ replicate 2000 CHR ''c''"
  let ?call = "\<lambda>c. Inr ('' s'' @ [hd c] @ '' '') :: exn + string"
  have len: "length ?T = 12000" by simp
  have returns: "\<forall>c \<in> set (chunks_of ?T). ?call c = Inr ('' s'' @ [hd c] @ '' '')"
    by simp
  note all = chunked_summary_reassembly
    [of ?T ?call "\<lambda>c. '' s'' @ [hd c] @ '' ''" "\<lparr>files = [], trace = []\<rparr>", OF returns]
  note twelve = all [THEN conjunct2, THEN conjunct2, THEN conjunct2, THEN mp, OF len]
  from len twelve show ?thesis
    by (simp add: strip_def py_isspace_def)
qed

section \<open>What a step may change\<close>

lemma changes_only_files:
  "changes_only S E w w' \<Longrightarrow> p \<notin> S \<Longrightarrow> map_of (files w') p = map_of (files w) p"
  unfolding changes_only_def by blast

lemma changes_only_exists:
  "changes_only S E w w' \<Longrightarrow> exists_file w p \<Longrightarrow> exists_file w' p"
  unfolding changes_only_def by blast

lemma changes_only_listdir:
  "changes_only S E w w' \<Longrightarrow> d \<notin> fst ` S \<Longrightarrow> listdir w' d = listdir w d"
  unfolding changes_only_def by blast

lemma changes_only_refl: "changes_only S E w w"
  by (simp add: changes_only_def)

lemma changes_only_trans:
  "changes_only S E w w' \<Longrightarrow> changes_only S E w' w'' \<Longrightarrow> changes_only S E w w''"
  unfolding changes_only_def by (elim conjE exE, intro conjI allI impI) auto

lemma changes_only_mono:
  "changes_only S E w w' \<Longrightarrow> S \<subseteq> S' \<Longrightarrow> E \<subseteq> E' \<Longrightarrow> changes_only S' E' w w'"
  unfolding changes_only_def by (elim conjE exE, intro conjI allI impI) (auto, blast)

lemma changes_only_emit: "changes_only {} {e} w (emit e w)"
  by (simp add: changes_only_def emit_def exists_file_def listdir_def)

lemma keys_update_other:
  "fst p \<noteq> d \<Longrightarrow>
     filter (\<lambda>q. fst q = d) (map fst (AList.update p c al)) = filter (\<lambda>q. fst q = d) (map fst al)"
  by (induction al) auto

lemma changes_only_update:
  "changes_only {p} {} w (w\<lparr>files := AList.update p c (files w)\<rparr>)"
  by (auto simp add: changes_only_def exists_file_def listdir_def update_conv' keys_update_other)

lemma changes_only_write_file: "changes_only {p} {Wrote p} w (snd (write_file env p c w))"
proof (cases "write_fault env p")
  case NoFault
  have "changes_only {p} {Wrote p} w (w\<lparr>files := AList.update p c (files w)\<rparr>)"
    by (rule changes_only_mono [OF changes_only_update]) auto
  moreover have "changes_only {p} {Wrote p} (w\<lparr>files := AList.update p c (files w)\<rparr>)
      (emit (Wrote p) (w\<lparr>files := AList.update p c (files w)\<rparr>))"
    by (rule changes_only_mono [OF changes_only_emit]) auto
  ultimately show ?thesis using NoFault
    by (simp add: write_file_def) (rule changes_only_trans)
next
  case OpenFails
  then show ?thesis by (simp add: write_file_def changes_only_refl)
next
  case (Torn c')
  have "changes_only {p} {Wrote p} w (w\<lparr>files := AList.update p c' (files w)\<rparr>)"
    by (rule changes_only_mono [OF changes_only_update]) auto
  moreover have "changes_only {p} {Wrote p} (w\<lparr>files := AList.update p c' (files w)\<rparr>)
      (emit (Wrote p) (w\<lparr>files := AList.update p c' (files w)\<rparr>))"
    by (rule changes_only_mono [OF changes_only_emit]) auto
  ultimately show ?thesis using Torn
    by (simp add: write_file_def) (rule changes_only_trans)
qed

lemma changes_only_then_do:
  assumes "changes_only S E w (snd r)"
    and "\<And>x. changes_only S E (snd r) (snd (k x (snd r)))"
  shows "changes_only S E w (snd (then_do r k))"
proof (cases r)
  case (Pair res w1)
  show ?thesis
  proof (cases res)
    case (Inl e)
    with Pair assms(1) show ?thesis by (simp add: then_do_def)
  next
    case (Inr x)
    with Pair assms(1) assms(2) [of x] show ?thesis
      by (simp add: then_do_def) (rule changes_only_trans)
  qed
qed

lemma changes_only_update_meta:
  "changes_only {(MetaDir, video_id @ ''.json'')} {Wrote (MetaDir, video_id @ ''.json'')} w
     (snd (update_meta env video_id key target w))"
  unfolding update_meta_def Let_def
  by (auto intro!: changes_only_then_do changes_only_write_file changes_only_refl)

lemma changes_only_transcribe_audio:
  "changes_only {} {Transcribe (path_str env p)} w (snd (transcribe_audio env p model w))"
  by (auto simp: transcribe_audio_def intro: changes_only_emit split: sum.splits)

lemma changes_only_transcribe_try:
  "changes_only (transcript_paths (stem name)) (transcribe_events env name) w
     (snd (transcribe_try env model name w))"
  unfolding transcribe_try_def Let_def
  apply (rule changes_only_then_do)
   apply (rule changes_only_mono [OF changes_only_transcribe_audio])
    apply (simp_all add: transcribe_events_def transcript_paths_def split_def)
  apply (rule changes_only_then_do)
   apply (rule changes_only_mono [OF changes_only_write_file]; simp)
  apply (rule changes_only_then_do)
   apply (rule changes_only_mono [OF changes_only_write_file]; simp)
  apply (rule changes_only_mono [OF changes_only_update_meta]; simp)
  done

lemma changes_only_transcribe_item:
  "changes_only (transcript_paths (stem name)) (transcribe_events env name) w
     (transcribe_item env model w name)"
proof (cases "exists_file w (TransDir, stem name @ ''.txt'')")
  case True
  then show ?thesis by (simp add: transcribe_item_def changes_only_refl)
next
  case False
  obtain r w1 where r: "transcribe_try env model name w = (r, w1)" by force
  have c: "changes_only (transcript_paths (stem name)) (transcribe_events env name) w w1"
    using changes_only_transcribe_try [of name env w model] r by simp
  show ?thesis
  proof (cases r)
    case (Inl x)
    have "changes_only (transcript_paths (stem name)) (transcribe_events env name) w1
            (emit (Warn name x) w1)"
      by (rule changes_only_mono [OF changes_only_emit]) (auto simp: transcribe_events_def)
    with c have "changes_only (transcript_paths (stem name)) (transcribe_events env name) w
            (emit (Warn name x) w1)" by (rule changes_only_trans)
    with False r Inl show ?thesis by (simp add: transcribe_item_def)
  next
    case (Inr u)
    with False r c show ?thesis by (simp add: transcribe_item_def)
  qed
qed

lemma txt_neq_json [simp]: "a @ ''.txt'' \<noteq> b @ ''.json''" "b @ ''.json'' \<noteq> a @ ''.txt''"
proof -
  have "last (a @ ''.txt'') \<noteq> last (b @ ''.json'')" by simp
  then show "a @ ''.txt'' \<noteq> b @ ''.json''" by metis
  then show "b @ ''.json'' \<noteq> a @ ''.txt''" by metis
qed

lemma transcribe_item_skip:
  "exists_file w (TransDir, stem name @ ''.txt'') \<Longrightarrow> transcribe_item env model w name = w"
  by (simp add: transcribe_item_def)

lemma path_str_inj [simp]: "path_str env (d, a) = path_str env (d, b) \<longleftrightarrow> a = b"
  by (simp add: path_str_def)

lemma transcriber_run_skips:
  assumes "exists_file w (TransDir, X @ ''.txt'')"
  shows "changes_only (\<Union>n \<in> {n \<in> set ns. stem n \<noteq> X}. transcript_paths (stem n))
           (\<Union>n \<in> {n \<in> set ns. stem n \<noteq> X}. transcribe_events env n)
           w (foldl (transcribe_item env model) w ns)"
  using assms
proof (induction ns arbitrary: w)
  case Nil
  show ?case by (simp add: changes_only_refl)
next
  case (Cons m ns)
  let ?S = "\<Union>n \<in> {n \<in> set (m # ns). stem n \<noteq> X}. transcript_paths (stem n)"
  let ?E = "\<Union>n \<in> {n \<in> set (m # ns). stem n \<noteq> X}. transcribe_events env n"
  let ?w1 = "transcribe_item env model w m"
  have step: "changes_only ?S ?E w ?w1"
  proof (cases "stem m = X")
    case True
    with Cons.prems show ?thesis by (simp add: transcribe_item_skip changes_only_refl)
  next
    case False
    show ?thesis
      by (rule changes_only_mono [OF changes_only_transcribe_item]) (use False in auto)
  qed
  then have "exists_file ?w1 (TransDir, X @ ''.txt'')"
    using Cons.prems by (rule changes_only_exists)
  then have "changes_only (\<Union>n \<in> {n \<in> set ns. stem n \<noteq> X}. transcript_paths (stem n))
           (\<Union>n \<in> {n \<in> set ns. stem n \<noteq> X}. transcribe_events env n)
           ?w1 (foldl (transcribe_item env model) ?w1 ns)"
    by (rule Cons.IH)
  then have "changes_only ?S ?E ?w1 (foldl (transcribe_item env model) ?w1 ns)"
    by (rule changes_only_mono) auto
  with step show ?case by (simp del: set_simps) (rule changes_only_trans)
qed

lemma changes_only_new_events:
  "changes_only S E w w' \<Longrightarrow> set (new_events w w') \<subseteq> E"
  by (auto simp: changes_only_def new_events_def)

section \<open>One turn of the Transcriber\<close>

lemma map_of_update_eq: "map_of (AList.update k v al) k' = (if k' = k then Some v else map_of al k')"
  by (simp add: update_conv')

lemma then_do_Inl [simp]: "then_do (Inl e, w) k = (Inl e, w)"
  by (simp add: then_do_def)

lemma then_do_Inr [simp]: "then_do (Inr x, w) k = k x w"
  by (simp add: then_do_def)

lemma write_file_ok:
  "write_fault env p = NoFault \<Longrightarrow>
     write_file env p c w = (Inr (), emit (Wrote p) (w\<lparr>files := AList.update p c (files w)\<rparr>))"
  by (simp add: write_file_def)

lemma write_file_fault:
  "write_fault env p \<noteq> NoFault \<Longrightarrow> fst (write_file env p c w) = Inl OSError"
  by (cases "write_fault env p") (simp_all add: write_file_def)

lemma then_do_fail: "fst r = Inl e \<Longrightarrow> then_do r k = (Inl e, snd r)"
  by (cases r) simp

lemma transcribe_item_fresh:
  "\<not> exists_file w (TransDir, stem name @ ''.txt'') \<Longrightarrow>
     transcribe_item env model w name = finish_item name (transcribe_try env model name w)"
  by (simp add: transcribe_item_def finish_item_def)

lemma finish_item_files [simp]: "files (finish_item name r) = files (snd r)"
  by (cases r) (simp add: finish_item_def emit_def split: sum.splits)

lemma finish_item_trace:
  "\<exists>es. trace (finish_item name r) = trace (snd r) @ es \<and> set es \<subseteq> range (Warn name)"
  by (cases r) (auto simp add: finish_item_def emit_def split: sum.splits)

lemma transcribe_try_ok:
  assumes "model (path_str env (AudioDir, name)) = Inr segs"
    and "write_fault env (TransDir, stem name @ ''.txt'') = NoFault"
    and "write_fault env (TransDir, stem name @ ''.json'') = NoFault"
  shows "transcribe_try env model name w
           = update_meta env (stem name) ''transcript_path'' (TransDir, stem name @ ''.txt'')
               (transcribed env name segs w)"
  using assms
  by (simp add: transcribe_try_def transcribe_audio_def write_file_ok transcribed_def emit_def Let_def)

lemma update_meta_ok:
  assumes "map_of (files w) (MetaDir, video_id @ ''.json'') = Some (Json (JObj kvs))"
    and "write_fault env (MetaDir, video_id @ ''.json'') = NoFault"
  shows "update_meta env video_id key target w
           = (Inr (), emit (Wrote (MetaDir, video_id @ ''.json''))
                (w\<lparr>files := AList.update (MetaDir, video_id @ ''.json'')
                     (Json (JObj (AList.update key (JStr (path_str env target)) kvs)))
                     (files w)\<rparr>))"
  using assms
  by (simp add: update_meta_def exists_file_def json_load_def set_item_def write_file_ok Let_def)

lemma files_emit [simp]: "files (emit e w) = files w"
  by (simp add: emit_def)

lemma trace_emit [simp]: "trace (emit e w) = trace w @ [e]"
  by (simp add: emit_def)

lemma map_of_transcribed_meta [simp]:
  "map_of (files (transcribed env name segs w)) (MetaDir, m) = map_of (files w) (MetaDir, m)"
  by (simp add: transcribed_def map_of_update_eq)

lemma transcriber_keeps_fields:
  assumes meta: "map_of (files w) (MetaDir, stem name @ ''.json'') = Some (Json (JObj kvs))"
    and fresh: "\<not> exists_file w (TransDir, stem name @ ''.txt'')"
    and ok: "model (path_str env (AudioDir, name)) = Inr segs"
    and f1: "write_fault env (TransDir, stem name @ ''.txt'') = NoFault"
    and f2: "write_fault env (TransDir, stem name @ ''.json'') = NoFault"
    and f3: "write_fault env (MetaDir, stem name @ ''.json'') = NoFault"
  shows "map_of (files (transcribe_item env model w name)) (MetaDir, stem name @ ''.json'')
           = Some (Json (JObj (AList.update ''transcript_path''
                (JStr (path_str env (TransDir, stem name @ ''.txt''))) kvs)))"
proof -
  let ?w3 = "transcribed env name segs w"
  have m: "map_of (files ?w3) (MetaDir, stem name @ ''.json'') = Some (Json (JObj kvs))"
    using meta by simp
  have t: "transcribe_try env model name w
      = update_meta env (stem name) ''transcript_path'' (TransDir, stem name @ ''.txt'') ?w3"
    using ok f1 f2 by (rule transcribe_try_ok)
  have u: "update_meta env (stem name) ''transcript_path'' (TransDir, stem name @ ''.txt'') ?w3
      = (Inr (), emit (Wrote (MetaDir, stem name @ ''.json''))
           (?w3\<lparr>files := AList.update (MetaDir, stem name @ ''.json'')
              (Json (JObj (AList.update ''transcript_path''
                 (JStr (path_str env (TransDir, stem name @ ''.txt''))) kvs)))
              (files ?w3)\<rparr>))"
    using m f3 by (rule update_meta_ok)
  show ?thesis
    using fresh by (simp add: transcribe_item_fresh t u map_of_update_eq)
qed

lemma transcribe_try_failure:
  assumes "(\<exists>x. model (path_str env (AudioDir, name)) = Inl x)
           \<or> write_fault env (TransDir, stem name @ ''.txt'') \<noteq> NoFault
           \<or> write_fault env (TransDir, stem name @ ''.json'') \<noteq> NoFault"
  shows "changes_only {(TransDir, stem name @ ''.txt''), (TransDir, stem name @ ''.json'')}
           {Transcribe (path_str env (AudioDir, name)), Wrote (TransDir, stem name @ ''.txt''),
            Wrote (TransDir, stem name @ ''.json'')}
           w (snd (transcribe_try env model name w))"
    (is "changes_only ?S ?E w _")
proof (cases "model (path_str env (AudioDir, name))")
  case (Inl x)
  have "changes_only ?S ?E w (emit (Transcribe (path_str env (AudioDir, name))) w)"
    by (rule changes_only_mono [OF changes_only_emit]) auto
  then show ?thesis using Inl
    by (simp add: transcribe_try_def transcribe_audio_def Let_def)
next
  case (Inr segs)
  let ?w1 = "emit (Transcribe (path_str env (AudioDir, name))) w"
  let ?text = "Text (join '' '' (map (\<lambda>seg. strip (seg_text seg)) segs))"
  let ?r2 = "write_file env (TransDir, stem name @ ''.txt'') ?text ?w1"
  have c1: "changes_only ?S ?E w ?w1"
    by (rule changes_only_mono [OF changes_only_emit]) auto
  have c2: "changes_only ?S ?E ?w1 (snd ?r2)"
    by (rule changes_only_mono [OF changes_only_write_file]) auto
  show ?thesis
  proof (cases "write_fault env (TransDir, stem name @ ''.txt'') = NoFault")
    case False
    then have "transcribe_try env model name w = (Inl OSError, snd ?r2)"
      using Inr write_file_fault [OF False, of ?text ?w1]
      by (simp add: transcribe_try_def transcribe_audio_def Let_def then_do_fail)
    moreover have "changes_only ?S ?E w (snd ?r2)"
      using c1 c2 by (rule changes_only_trans)
    ultimately show ?thesis by simp
  next
    case True
    with assms Inr have f2: "write_fault env (TransDir, stem name @ ''.json'') \<noteq> NoFault"
      by simp
    let ?w2 = "emit (Wrote (TransDir, stem name @ ''.txt''))
                 (?w1\<lparr>files := AList.update (TransDir, stem name @ ''.txt'') ?text (files ?w1)\<rparr>)"
    let ?segs = "Json (JArr (map (\<lambda>seg. JObj [(''start'', JNum (seg_start seg)),
                                            (''end'', JNum (seg_end seg)),
                                            (''text'', JStr (strip (seg_text seg)))]) segs))"
    let ?r3 = "write_file env (TransDir, stem name @ ''.json'') ?segs ?w2"
    have w2: "?r2 = (Inr (), ?w2)" using True by (rule write_file_ok)
    have c3: "changes_only ?S ?E ?w2 (snd ?r3)"
      by (rule changes_only_mono [OF changes_only_write_file]) auto
    have "transcribe_try env model name w = (Inl OSError, snd ?r3)"
      using Inr w2 write_file_fault [OF f2, of ?segs ?w2]
      by (simp add: transcribe_try_def transcribe_audio_def Let_def then_do_fail)
    moreover have "changes_only ?S ?E w ?w2"
      using c1 c2 unfolding w2 snd_conv by (rule changes_only_trans)
    then have "changes_only ?S ?E w (snd ?r3)"
      using c3 by (rule changes_only_trans)
    ultimately show ?thesis by simp
  qed
qed

lemma new_events_append: "trace w' = trace w @ es \<Longrightarrow> new_events w w' = es"
  by (simp add: new_events_def)

lemma changes_only_finish_item:
  "changes_only {} (range (Warn name)) (snd r) (finish_item name r)"
proof (cases r)
  case (Pair res w1)
  show ?thesis
  proof (cases res)
    case (Inl x)
    have "changes_only {} (range (Warn name)) w1 (emit (Warn name x) w1)"
      by (rule changes_only_mono [OF changes_only_emit]) auto
    with Pair Inl show ?thesis by (simp add: finish_item_def)
  next
    case (Inr u)
    with Pair show ?thesis by (simp add: finish_item_def changes_only_refl)
  qed
qed

lemma transcriber_failure_keeps_meta:
  assumes "(\<exists>x. model (path_str env (AudioDir, name)) = Inl x)
           \<or> write_fault env (TransDir, stem name @ ''.txt'') \<noteq> NoFault
           \<or> write_fault env (TransDir, stem name @ ''.json'') \<noteq> NoFault"
  shows "map_of (files (transcribe_item env model w name)) (MetaDir, m)
           = map_of (files w) (MetaDir, m)
         \<and> Wrote (MetaDir, m) \<notin> set (new_events w (transcribe_item env model w name))"
proof (cases "exists_file w (TransDir, stem name @ ''.txt'')")
  case True
  then show ?thesis by (simp add: transcribe_item_skip new_events_def)
next
  case False
  let ?S = "{(TransDir, stem name @ ''.txt''), (TransDir, stem name @ ''.json'')}"
  let ?E = "{Transcribe (path_str env (AudioDir, name)), Wrote (TransDir, stem name @ ''.txt''),
            Wrote (TransDir, stem name @ ''.json'')} \<union> range (Warn name)"
  let ?r = "transcribe_try env model name w"
  have "changes_only ?S ?E w (snd ?r)"
    by (rule changes_only_mono [OF transcribe_try_failure [where model=model and env=env and name=name, OF assms]]) auto
  moreover have "changes_only ?S ?E (snd ?r) (finish_item name ?r)"
    by (rule changes_only_mono [OF changes_only_finish_item]) auto
  ultimately have c: "changes_only ?S ?E w (transcribe_item env model w name)"
    unfolding transcribe_item_fresh [OF False] by (rule changes_only_trans)
  have "(MetaDir, m) \<notin> ?S" by simp
  with c have "map_of (files (transcribe_item env model w name)) (MetaDir, m)
           = map_of (files w) (MetaDir, m)" by (rule changes_only_files)
  moreover have "Wrote (MetaDir, m) \<notin> ?E" by auto
  with changes_only_new_events [OF c]
  have "Wrote (MetaDir, m) \<notin> set (new_events w (transcribe_item env model w name))" by blast
  ultimately show ?thesis by simp
qed

lemma trace_transcribed:
  "trace (transcribed env name segs w)
     = trace w @ [Transcribe (path_str env (AudioDir, name)),
                  Wrote (TransDir, stem name @ ''.txt''), Wrote (TransDir, stem name @ ''.json'')]"
  by (simp add: transcribed_def)

lemma map_of_transcribed_files:
  "map_of (files (transcribed env name segs w)) (TransDir, stem name @ ''.txt'')
     = Some (Text (join '' '' (map (\<lambda>seg. strip (seg_text seg)) segs)))"
  "map_of (files (transcribed env name segs w)) (TransDir, stem name @ ''.json'')
     = Some (Json (JArr (map (\<lambda>seg. JObj [(''start'', JNum (seg_start seg)),
                                            (''end'', JNum (seg_end seg)),
                                            (''text'', JStr (strip (seg_text seg)))]) segs)))"
  by (simp_all add: transcribed_def map_of_update_eq)

lemma transcriber_meta_after_files:
  assumes wrote: "Wrote (MetaDir, m) \<in> set (new_events w (transcribe_item env model w name))"
  shows "\<exists>segs rest.
          model (path_str env (AudioDir, name)) = Inr segs \<and>
          map_of (files (transcribe_item env model w name)) (TransDir, stem name @ ''.txt'')
            = Some (Text (join '' '' (map (\<lambda>seg. strip (seg_text seg)) segs))) \<and>
          map_of (files (transcribe_item env model w name)) (TransDir, stem name @ ''.json'')
            = Some (Json (JArr (map (\<lambda>seg. JObj [(''start'', JNum (seg_start seg)),
                                            (''end'', JNum (seg_end seg)),
                                            (''text'', JStr (strip (seg_text seg)))]) segs))) \<and>
          new_events w (transcribe_item env model w name)
            = [Transcribe (path_str env (AudioDir, name)), Wrote (TransDir, stem name @ ''.txt''),
               Wrote (TransDir, stem name @ ''.json''), Wrote (MetaDir, m)] @ rest"
proof -
  let ?w' = "transcribe_item env model w name"
  have fresh: "\<not> exists_file w (TransDir, stem name @ ''.txt'')"
    using wrote by (auto simp: transcribe_item_skip new_events_def)
  have nofail: "\<not> ((\<exists>x. model (path_str env (AudioDir, name)) = Inl x)
           \<or> write_fault env (TransDir, stem name @ ''.txt'') \<noteq> NoFault
           \<or> write_fault env (TransDir, stem name @ ''.json'') \<noteq> NoFault)"
    using transcriber_failure_keeps_meta [of model env name w m] wrote by blast
  then obtain segs where ok: "model (path_str env (AudioDir, name)) = Inr segs"
    by (cases "model (path_str env (AudioDir, name))") auto
  from nofail have f1: "write_fault env (TransDir, stem name @ ''.txt'') = NoFault"
    and f2: "write_fault env (TransDir, stem name @ ''.json'') = NoFault" by auto
  let ?w3 = "transcribed env name segs w"
  let ?r = "update_meta env (stem name) ''transcript_path'' (TransDir, stem name @ ''.txt'') ?w3"
  let ?M = "(MetaDir, stem name @ ''.json'')"
  have w': "?w' = finish_item name ?r"
    using transcribe_item_fresh [OF fresh]
      transcribe_try_ok [where model=model and env=env and name=name, OF ok f1 f2] by simp
  have c1: "changes_only {?M} {Wrote ?M} ?w3 (snd ?r)"
    by (rule changes_only_update_meta)
  have c2: "changes_only {} (range (Warn name)) (snd ?r) ?w'"
    unfolding w' by (rule changes_only_finish_item)
  obtain es where es: "trace (snd ?r) = trace ?w3 @ es" "set es \<subseteq> {Wrote ?M}"
    using c1 unfolding changes_only_def by blast
  obtain ws where ws: "trace ?w' = trace (snd ?r) @ ws" "set ws \<subseteq> range (Warn name)"
    using c2 unfolding changes_only_def by blast
  have new: "new_events w ?w'
      = [Transcribe (path_str env (AudioDir, name)), Wrote (TransDir, stem name @ ''.txt''),
         Wrote (TransDir, stem name @ ''.json'')] @ es @ ws"
    by (rule new_events_append) (simp add: ws es trace_transcribed)
  have "Wrote (MetaDir, m) \<in> set es"
    using wrote ws(2) unfolding new by auto
  then have m: "m = stem name @ ''.json''" and "es \<noteq> []"
    using es(2) by auto
  then obtain es' where es': "es = Wrote ?M # es'"
    using es(2) by (cases es) auto
  have files: "map_of (files ?w') p = map_of (files ?w3) p" if "p \<noteq> ?M" for p
  proof -
    have "map_of (files ?w') p = map_of (files (snd ?r)) p"
      using c2 by (rule changes_only_files) simp
    also have "\<dots> = map_of (files ?w3) p"
      using c1 by (rule changes_only_files) (use that in simp)
    finally show ?thesis .
  qed
  show ?thesis
    using ok files [of "(TransDir, stem name @ ''.txt'')"]
      files [of "(TransDir, stem name @ ''.json'')"] new
    by (simp add: map_of_transcribed_files m es')
qed


section \<open>The resume checkpoint of the Transcriber\<close>

text \<open>
  C3.  When the transcript text file of the identifier \<open>X\<close> exists before a run of the
  Transcriber, the run leaves the text file, the JSON segment file and the Metadata
  Record of \<open>X\<close> as they were, opens none of them for writing, and calls the
  speech-recognition model on no audio file whose stem is \<open>X\<close>.  Nothing is assumed
  about the JSON segment file: the text file alone is the checkpoint.
\<close>

theorem transcriber_resume_checkpoint:
  assumes "exists_file w (TransDir, X @ ''.txt'')"
  shows "map_of (files (snd (transcriber_main env w))) (TransDir, X @ ''.txt'')
           = map_of (files w) (TransDir, X @ ''.txt'')
       \<and> map_of (files (snd (transcriber_main env w))) (TransDir, X @ ''.json'')
           = map_of (files w) (TransDir, X @ ''.json'')
       \<and> map_of (files (snd (transcriber_main env w))) (MetaDir, X @ ''.json'')
           = map_of (files w) (MetaDir, X @ ''.json'')
       \<and> (\<forall>ev \<in> set (new_events w (snd (transcriber_main env w))).
            ev \<noteq> Wrote (TransDir, X @ ''.txt'') \<and> ev \<noteq> Wrote (TransDir, X @ ''.json'') \<and>
            ev \<noteq> Wrote (MetaDir, X @ ''.json'') \<and>
            (\<forall>name. stem name = X \<longrightarrow> ev \<noteq> Transcribe (path_str env (AudioDir, name))))"
proof (cases "whisper_model env")
  case (Inl x)
  then show ?thesis by (simp add: transcriber_main_def new_events_def)
next
  case (Inr model)
  let ?ns = "audio_files w"
  let ?S = "\<Union>n \<in> {n \<in> set ?ns. stem n \<noteq> X}. transcript_paths (stem n)"
  let ?E = "\<Union>n \<in> {n \<in> set ?ns. stem n \<noteq> X}. transcribe_events env n"
  let ?w' = "snd (transcriber_main env w)"
  have w': "?w' = foldl (transcribe_item env model) w ?ns"
    using Inr by (simp add: transcriber_main_def)
  have c: "changes_only ?S ?E w ?w'"
    unfolding w' by (rule transcriber_run_skips [OF assms])
  have notin: "(TransDir, X @ ''.txt'') \<notin> ?S" "(TransDir, X @ ''.json'') \<notin> ?S"
    "(MetaDir, X @ ''.json'') \<notin> ?S"
    by (auto simp: transcript_paths_def)
  have files: "\<And>p. p \<notin> ?S \<Longrightarrow> map_of (files ?w') p = map_of (files w) p"
    using c by (rule changes_only_files)
  have ev: "set (new_events w ?w') \<subseteq> ?E"
    using c by (rule changes_only_new_events)
  have E1: "Wrote (TransDir, X @ ''.txt'') \<notin> ?E" "Wrote (TransDir, X @ ''.json'') \<notin> ?E"
    "Wrote (MetaDir, X @ ''.json'') \<notin> ?E"
    by (auto simp: transcribe_events_def transcript_paths_def)
  have E2: "\<And>name. stem name = X \<Longrightarrow> Transcribe (path_str env (AudioDir, name)) \<notin> ?E"
    by (auto simp: transcribe_events_def transcript_paths_def)
  have "ev \<noteq> Wrote (TransDir, X @ ''.txt'') \<and> ev \<noteq> Wrote (TransDir, X @ ''.json'') \<and>
        ev \<noteq> Wrote (MetaDir, X @ ''.json'') \<and>
        (\<forall>name. stem name = X \<longrightarrow> ev \<noteq> Transcribe (path_str env (AudioDir, name)))"
    if "ev \<in> set (new_events w ?w')" for ev
  proof -
    from that ev have "ev \<in> ?E" by blast
    with E1 E2 show ?thesis by blast
  qed
  with files [OF notin(1)] files [OF notin(2)] files [OF notin(3)] show ?thesis
    by blast
qed

theorem transcriber_resume_checkpoint_witness:
  "exists_file demo_world (TransDir, ''x'' @ ''.txt'')
   \<and> map_of (files demo_world) (TransDir, ''x'' @ ''.json'') = None
   \<and> map_of (files (snd (transcriber_main demo_env demo_world))) (TransDir, ''x'' @ ''.json'')
       = map_of (files demo_world) (TransDir, ''x'' @ ''.json'')
   \<and> map_of (files (snd (transcriber_main demo_env demo_world))) (MetaDir, ''x'' @ ''.json'')
       = map_of (files demo_world) (MetaDir, ''x'' @ ''.json'')
   \<and> new_events demo_world (snd (transcriber_main demo_env demo_world))
       = [Transcribe ''/app/data/audio/y.mp3'', Wrote (TransDir, ''y.txt''),
          Wrote (TransDir, ''y.json''), Wrote (MetaDir, ''y.json'')]"
proof -
  have h: "exists_file demo_world (TransDir, ''x'' @ ''.txt'')"
    by code_simp
  have absent: "map_of (files demo_world) (TransDir, ''x'' @ ''.json'') = None"
    by code_simp
  have run: "new_events demo_world (snd (transcriber_main demo_env demo_world))
       = [Transcribe ''/app/data/audio/y.mp3'', Wrote (TransDir, ''y.txt''),
          Wrote (TransDir, ''y.json''), Wrote (MetaDir, ''y.json'')]"
    by code_simp
  from transcriber_resume_checkpoint [OF h, of demo_env] h absent run
  show ?thesis by blast
qed

section \<open>The metadata update comes last\<close>

text \<open>
  C10.  In one turn of the Transcriber's loop: if the transcription raises or one of the
  two transcript files cannot be written, no file of the metadata directory is changed or
  opened for writing; and if a Metadata Record is opened for writing, then the
  transcription returned, the text file and the JSON segment file hold its result, and
  both were written before the record (the turn's events start with the transcription,
  the two transcript writes and then the metadata write).
\<close>

theorem transcriber_metadata_update_last:
  "((\<exists>x. model (path_str env (AudioDir, name)) = Inl x)
      \<or> write_fault env (TransDir, stem name @ ''.txt'') \<noteq> NoFault
      \<or> write_fault env (TransDir, stem name @ ''.json'') \<noteq> NoFault
    \<longrightarrow> map_of (files (transcribe_item env model w name)) (MetaDir, m)
          = map_of (files w) (MetaDir, m)
        \<and> Wrote (MetaDir, m) \<notin> set (new_events w (transcribe_item env model w name)))
   \<and> (Wrote (MetaDir, m) \<in> set (new_events w (transcribe_item env model w name))
    \<longrightarrow> (\<exists>segs rest.
          model (path_str env (AudioDir, name)) = Inr segs \<and>
          map_of (files (transcribe_item env model w name)) (TransDir, stem name @ ''.txt'')
            = Some (Text (join '' '' (map (\<lambda>seg. strip (seg_text seg)) segs))) \<and>
          map_of (files (transcribe_item env model w name)) (TransDir, stem name @ ''.json'')
            = Some (Json (JArr (map (\<lambda>seg. JObj [(''start'', JNum (seg_start seg)),
                                            (''end'', JNum (seg_end seg)),
                                            (''text'', JStr (strip (seg_text seg)))]) segs))) \<and>
          new_events w (transcribe_item env model w name)
            = [Transcribe (path_str env (AudioDir, name)), Wrote (TransDir, stem name @ ''.txt''),
               Wrote (TransDir, stem name @ ''.json''), Wrote (MetaDir, m)] @ rest))"
  using transcriber_failure_keeps_meta [where model=model and env=env and name=name and w=w and m=m]
    transcriber_meta_after_files [where model=model and env=env and name=name and w=w and m=m]
  by blast

theorem transcriber_metadata_update_last_witness:
  "write_fault json_fault_env (TransDir, stem ''y.mp3'' @ ''.json'') \<noteq> NoFault
   \<and> map_of (files (transcribe_item json_fault_env demo_model demo_world ''y.mp3''))
         (MetaDir, ''y.json'')
       = map_of (files demo_world) (MetaDir, ''y.json'')
   \<and> Wrote (MetaDir, ''y.json'')
       \<notin> set (new_events demo_world (transcribe_item json_fault_env demo_model demo_world ''y.mp3''))
   \<and> new_events demo_world (transcribe_item json_fault_env demo_model demo_world ''y.mp3'')
       = [Transcribe ''/app/data/audio/y.mp3'', Wrote (TransDir, ''y.txt''),
          Warn ''y.mp3'' OSError]
   \<and> Wrote (MetaDir, ''y.json'')
       \<in> set (new_events demo_world (transcribe_item demo_env demo_model demo_world ''y.mp3''))
   \<and> (\<exists>segs. demo_model (path_str demo_env (AudioDir, ''y.mp3'')) = Inr segs \<and>
         map_of (files (transcribe_item demo_env demo_model demo_world ''y.mp3''))
           (TransDir, stem ''y.mp3'' @ ''.txt'')
         = Some (Text (join '' '' (map (\<lambda>seg. strip (seg_text seg)) segs))))"
proof -
  have fails: "write_fault json_fault_env (TransDir, stem ''y.mp3'' @ ''.json'') \<noteq> NoFault"
    by code_simp
  have events: "new_events demo_world (transcribe_item json_fault_env demo_model demo_world ''y.mp3'')
       = [Transcribe ''/app/data/audio/y.mp3'', Wrote (TransDir, ''y.txt''),
          Warn ''y.mp3'' OSError]"
    by code_simp
  have wrote: "Wrote (MetaDir, ''y.json'')
       \<in> set (new_events demo_world (transcribe_item demo_env demo_model demo_world ''y.mp3''))"
    by code_simp
  from transcriber_metadata_update_last
         [of demo_model json_fault_env "''y.mp3''" demo_world "''y.json''"]
       transcriber_metadata_update_last
         [of demo_model demo_env "''y.mp3''" demo_world "''y.json''"]
       fails events wrote
  show ?thesis by blast
qed

section \<open>One turn of the Summarizer\<close>

lemma changes_only_summarize_chunks:
  "changes_only {} (range Abstractive) w (snd (summarize_chunks summarizer cs acc w))"
proof (induction summarizer cs acc w rule: summarize_chunks.induct)
  case (1 summarizer summaries w)
  show ?case by (simp add: changes_only_refl)
next
  case (2 chunk rest summaries w)
  show ?case by (simp add: changes_only_refl)
next
  case (3 call chunk rest summaries w)
  have e: "changes_only {} (range Abstractive) w (emit (Abstractive chunk) w)"
    by (rule changes_only_mono [OF changes_only_emit]) auto
  show ?case
  proof (cases "call chunk")
    case (Inl x)
    with e show ?thesis by simp
  next
    case (Inr summary)
    with "3.IH" [OF Inr] e show ?thesis
      by simp (rule changes_only_trans)
  qed
qed

lemma changes_only_abstractive_summary:
  "changes_only {} (range Abstractive) w (snd (abstractive_summary text summarizer w))"
proof -
  have "snd (abstractive_summary text summarizer w)
          = snd (summarize_chunks summarizer (chunks_of text) [] w)"
    by (simp add: abstractive_summary_def split: prod.splits sum.splits)
  then show ?thesis by (simp add: changes_only_summarize_chunks)
qed

lemma changes_only_extractive_summary:
  "changes_only {} (range Extractive) w (snd (extractive_summary env text w))"
proof -
  have "snd (extractive_summary env text w) = emit (Extractive text) w"
    by (simp add: extractive_summary_def split: sum.splits)
  moreover have "changes_only {} (range Extractive) w (emit (Extractive text) w)"
    by (rule changes_only_mono [OF changes_only_emit]) auto
  ultimately show ?thesis by simp
qed

lemma changes_only_summary_call:
  "changes_only (summary_paths (stem name)) (summarize_events use_extractive name) w
     (snd (if use_extractive then extractive_summary env text w
           else abstractive_summary text summarizer w))"
proof (cases use_extractive)
  case True
  have "changes_only (summary_paths (stem name)) (summarize_events True name) w
          (snd (extractive_summary env text w))"
    by (rule changes_only_mono [OF changes_only_extractive_summary])
      (auto simp: summarize_events_def)
  with True show ?thesis by simp
next
  case False
  have "changes_only (summary_paths (stem name)) (summarize_events False name) w
          (snd (abstractive_summary text summarizer w))"
    by (rule changes_only_mono [OF changes_only_abstractive_summary])
      (auto simp: summarize_events_def)
  with False show ?thesis by simp
qed

lemma summarize_try_unreadable:
  "read_text w (TransDir, name) = Inl x \<Longrightarrow>
     summarize_try env use_extractive summarizer name w = (Inl x, w)"
  by (simp add: summarize_try_def)

lemma summarize_try_short:
  "read_text w (TransDir, name) = Inr raw \<Longrightarrow> length (strip raw) < 100 \<Longrightarrow>
     summarize_try env use_extractive summarizer name w = (Inr (), w)"
  by (simp add: summarize_try_def)

lemma summarize_try_long:
  "read_text w (TransDir, name) = Inr raw \<Longrightarrow> \<not> length (strip raw) < 100 \<Longrightarrow>
     summarize_try env use_extractive summarizer name w
       = then_do (if use_extractive then extractive_summary env (strip raw) w
                  else abstractive_summary (strip raw) summarizer w) (\<lambda>summary_text w2.
         then_do (write_file env (SummDir, stem name @ ''_summary.txt'') (Text summary_text) w2)
           (\<lambda>_ w3. update_meta env (stem name) ''summary_path''
                      (SummDir, stem name @ ''_summary.txt'') w3))"
  by (simp add: summarize_try_def Let_def)

lemma changes_only_summarize_try:
  "changes_only (summary_paths (stem name)) (summarize_events use_extractive name) w
     (snd (summarize_try env use_extractive summarizer name w))"
proof (cases "read_text w (TransDir, name)")
  case (Inl x)
  then show ?thesis by (simp add: summarize_try_unreadable changes_only_refl)
next
  case (Inr raw)
  show ?thesis
  proof (cases "length (strip raw) < 100")
    case True
    with Inr show ?thesis by (simp add: summarize_try_short changes_only_refl)
  next
    case False
    show ?thesis
      unfolding summarize_try_long [OF Inr False]
      apply (rule changes_only_then_do)
       apply (rule changes_only_summary_call)
      apply (rule changes_only_then_do)
       apply (rule changes_only_mono [OF changes_only_write_file])
        apply (simp add: summary_paths_def)
       apply (simp add: summarize_events_def summary_paths_def)
      apply (rule changes_only_mono [OF changes_only_update_meta])
       apply (simp add: summary_paths_def)
      apply (simp add: summarize_events_def summary_paths_def)
      done
  qed
qed

lemma summarize_item_skip:
  "exists_file w (SummDir, stem name @ ''_summary.txt'') \<Longrightarrow>
     summarize_item env use_extractive summarizer w name = w"
  by (simp add: summarize_item_def)

lemma summarize_item_fresh:
  "\<not> exists_file w (SummDir, stem name @ ''_summary.txt'') \<Longrightarrow>
     summarize_item env use_extractive summarizer w name
       = finish_item name (summarize_try env use_extractive summarizer name w)"
  by (simp add: summarize_item_def finish_item_def)

lemma changes_only_summarize_item:
  "changes_only (summary_paths (stem name)) (summarize_events use_extractive name) w
     (summarize_item env use_extractive summarizer w name)"
proof (cases "exists_file w (SummDir, stem name @ ''_summary.txt'')")
  case True
  then show ?thesis by (simp add: summarize_item_skip changes_only_refl)
next
  case False
  let ?r = "summarize_try env use_extractive summarizer name w"
  have "changes_only (summary_paths (stem name)) (summarize_events use_extractive name)
          (snd ?r) (finish_item name ?r)"
    by (rule changes_only_mono [OF changes_only_finish_item])
      (auto simp: summarize_events_def)
  with changes_only_summarize_try
  have "changes_only (summary_paths (stem name)) (summarize_events use_extractive name) w
          (finish_item name ?r)"
    by (rule changes_only_trans)
  then show ?thesis by (simp add: summarize_item_fresh [OF False])
qed

lemma summarize_item_short:
  assumes "read_text w (TransDir, name) = Inr raw" and "length (strip raw) < 100"
  shows "summarize_item env use_extractive summarizer w name = w"
  using assms by (simp add: summarize_item_def summarize_try_short)

section \<open>The strategy of a run of the Summarizer\<close>

lemma changes_only_foldl:
  assumes "\<And>w n. n \<in> set ns \<Longrightarrow> changes_only (S n) (E n) w (step w n)"
  shows "changes_only (\<Union>n \<in> set ns. S n) (\<Union>n \<in> set ns. E n) w (foldl step w ns)"
  using assms
proof (induction ns arbitrary: w)
  case Nil
  show ?case by (simp add: changes_only_refl)
next
  case (Cons m ns)
  let ?S = "\<Union>n \<in> set (m # ns). S n" and ?E = "\<Union>n \<in> set (m # ns). E n"
  have "changes_only (S m) (E m) w (step w m)"
    by (rule Cons.prems) simp
  then have a: "changes_only ?S ?E w (step w m)"
    by (rule changes_only_mono) auto
  have "changes_only (\<Union>n \<in> set ns. S n) (\<Union>n \<in> set ns. E n) (step w m) (foldl step (step w m) ns)"
    by (rule Cons.IH) (rule Cons.prems, simp)
  then have "changes_only ?S ?E (step w m) (foldl step (step w m) ns)"
    by (rule changes_only_mono) auto
  with a show ?case by (simp del: set_simps) (rule changes_only_trans)
qed

lemma choose_strategy_fails:
  "pipeline env = Inl x \<Longrightarrow> choose_strategy env w = ((True, None), emit (Fallback x) w)"
  by (simp add: choose_strategy_def)

lemma choose_strategy_loads:
  "pipeline env = Inr call \<Longrightarrow> choose_strategy env w = ((False, Some call), w)"
  by (simp add: choose_strategy_def)

lemma summarizer_main_fails:
  "pipeline env = Inl x \<Longrightarrow>
     summarizer_main env w
       = foldl (summarize_item env True None) (emit (Fallback x) w)
           (transcripts (emit (Fallback x) w))"
  by (simp add: summarizer_main_def choose_strategy_fails)

lemma summarizer_main_loads:
  "pipeline env = Inr call \<Longrightarrow>
     summarizer_main env w = foldl (summarize_item env False (Some call)) w (transcripts w)"
  by (simp add: summarizer_main_def choose_strategy_loads)

lemma changes_only_trace:
  "changes_only S E w w' \<Longrightarrow> \<exists>es. trace w' = trace w @ es \<and> set es \<subseteq> E"
  by (simp add: changes_only_def)

lemma summarizer_run_frame:
  "changes_only (\<Union>n \<in> set ns. summary_paths (stem n)) (\<Union>n \<in> set ns. summarize_events b n)
     w (foldl (summarize_item env b s) w ns)"
  by (rule changes_only_foldl) (rule changes_only_summarize_item)

lemma summarizer_run_events:
  "\<exists>es. trace (foldl (summarize_item env b s) w ns) = trace w @ es
        \<and> set es \<subseteq> (\<Union>n \<in> set ns. summarize_events b n)"
  using summarizer_run_frame by (rule changes_only_trace)

section \<open>A pending transcript in a run of the Summarizer\<close>

lemma store_summary_fun:
  "(\<lambda>summary_text w2.
       then_do (write_file env (SummDir, stem name @ ''_summary.txt'') (Text summary_text) w2)
         (\<lambda>_ w3. update_meta env (stem name) ''summary_path''
                    (SummDir, stem name @ ''_summary.txt'') w3))
     = store_summary env name"
  by (rule ext, rule ext) (simp add: store_summary_def)

lemma summarize_try_long':
  assumes "read_text w (TransDir, name) = Inr raw" and "\<not> length (strip raw) < 100"
  shows "summarize_try env use_extractive summarizer name w
       = then_do (if use_extractive then extractive_summary env (strip raw) w
                  else abstractive_summary (strip raw) summarizer w)
           (store_summary env name)"
  unfolding summarize_try_long [OF assms] store_summary_fun ..

lemma changes_only_store_summary:
  "changes_only (summary_paths (stem name)) (Wrote ` summary_paths (stem name)) w
     (snd (store_summary env name summary_text w))"
  unfolding store_summary_def
  apply (rule changes_only_then_do)
   apply (rule changes_only_mono [OF changes_only_write_file])
    apply (simp add: summary_paths_def)
   apply (simp add: summary_paths_def)
  apply (rule changes_only_mono [OF changes_only_update_meta])
   apply (simp add: summary_paths_def)
  apply (simp add: summary_paths_def)
  done

lemma summary_neq_json [simp]:
  "a @ ''_summary.txt'' \<noteq> b @ ''.json''" "b @ ''.json'' \<noteq> a @ ''_summary.txt''"
proof -
  have "last (a @ ''_summary.txt'') \<noteq> last (b @ ''.json'')" by simp
  then show "a @ ''_summary.txt'' \<noteq> b @ ''.json''" by metis
  then show "b @ ''.json'' \<noteq> a @ ''_summary.txt''" by metis
qed

lemma store_summary_content:
  assumes "write_fault env (SummDir, stem name @ ''_summary.txt'') = NoFault"
  shows "map_of (files (snd (store_summary env name summary_text w)))
           (SummDir, stem name @ ''_summary.txt'') = Some (Text summary_text)"
proof -
  let ?out = "(SummDir, stem name @ ''_summary.txt'')"
  let ?w2 = "emit (Wrote ?out) (w\<lparr>files := AList.update ?out (Text summary_text) (files w)\<rparr>)"
  have "store_summary env name summary_text w
          = update_meta env (stem name) ''summary_path'' ?out ?w2"
    by (simp add: store_summary_def write_file_ok [OF assms])
  moreover have "map_of (files (snd (update_meta env (stem name) ''summary_path'' ?out ?w2))) ?out
          = map_of (files ?w2) ?out"
    by (rule changes_only_files [OF changes_only_update_meta]) simp
  ultimately show ?thesis by (simp add: map_of_update_eq)
qed

lemma item_trace_after_call:
  "\<exists>es. trace (finish_item name (then_do r (store_summary env name))) = trace (snd r) @ es"
proof -
  let ?S = "summary_paths (stem name)"
  let ?E = "Wrote ` summary_paths (stem name) \<union> range (Warn name)"
  have "changes_only ?S ?E (snd r) (snd (then_do r (store_summary env name)))"
  proof (rule changes_only_then_do)
    show "changes_only ?S ?E (snd r) (snd r)" by (rule changes_only_refl)
    show "changes_only ?S ?E (snd r) (snd (store_summary env name x (snd r)))" for x
      by (rule changes_only_mono [OF changes_only_store_summary]) auto
  qed
  moreover have "changes_only ?S ?E (snd (then_do r (store_summary env name)))
      (finish_item name (then_do r (store_summary env name)))"
    by (rule changes_only_mono [OF changes_only_finish_item]) auto
  ultimately have "changes_only ?S ?E (snd r)
      (finish_item name (then_do r (store_summary env name)))"
    by (rule changes_only_trans)
  then show ?thesis
    using changes_only_trace by blast
qed

lemma item_content_after_call:
  assumes "fst r = Inr summary_text"
    and "write_fault env (SummDir, stem name @ ''_summary.txt'') = NoFault"
  shows "map_of (files (finish_item name (then_do r (store_summary env name))))
           (SummDir, stem name @ ''_summary.txt'') = Some (Text summary_text)"
proof -
  from assms(1) have "r = (Inr summary_text, snd r)" by (cases r) simp
  then have "then_do r (store_summary env name) = store_summary env name summary_text (snd r)"
    by (metis then_do_Inr)
  then show ?thesis
    by (simp add: store_summary_content [OF assms(2)])
qed

lemma summarize_item_pending:
  assumes "\<not> exists_file w (SummDir, stem name @ ''_summary.txt'')"
    and "read_text w (TransDir, name) = Inr raw" and "\<not> length (strip raw) < 100"
  shows "summarize_item env use_extractive summarizer w name
       = finish_item name
           (then_do (if use_extractive then extractive_summary env (strip raw) w
                     else abstractive_summary (strip raw) summarizer w)
              (store_summary env name))"
  by (simp only: summarize_item_fresh [OF assms(1)] summarize_try_long' [OF assms(2,3)])

lemma extractive_summary_snd [simp]:
  "snd (extractive_summary env text w) = emit (Extractive text) w"
  by (simp add: extractive_summary_def split: sum.splits)

lemma extractive_summary_fst:
  "lex_rank env text 5 = Inr sentences \<Longrightarrow>
     fst (extractive_summary env text w) = Inr (join '' '' sentences)"
  by (simp add: extractive_summary_def)

lemma extractive_item_trace:
  assumes "\<not> exists_file w (SummDir, stem name @ ''_summary.txt'')"
    and "read_text w (TransDir, name) = Inr raw" and "\<not> length (strip raw) < 100"
  shows "\<exists>es. trace (summarize_item env True summarizer w name)
                = trace w @ Extractive (strip raw) # es"
  using item_trace_after_call [of name "extractive_summary env (strip raw) w" env]
  by (simp add: summarize_item_pending [OF assms])

lemma extractive_item_content:
  assumes "\<not> exists_file w (SummDir, stem name @ ''_summary.txt'')"
    and "read_text w (TransDir, name) = Inr raw" and "\<not> length (strip raw) < 100"
    and "lex_rank env (strip raw) 5 = Inr sentences"
    and "write_fault env (SummDir, stem name @ ''_summary.txt'') = NoFault"
  shows "map_of (files (summarize_item env True summarizer w name))
           (SummDir, stem name @ ''_summary.txt'') = Some (Text (join '' '' sentences))"
  using item_content_after_call [OF extractive_summary_fst [OF assms(4)] assms(5), of w]
  by (simp add: summarize_item_pending [OF assms(1,2,3)])

lemma chunks_of_first:
  "text \<noteq> [] \<Longrightarrow> chunks_of text = take 5000 text # tl (chunks_of text)"
  by (simp add: chunks_of_def max_chunk_def slice_def py_range_unfold [of 0])

lemma summarize_chunks_first:
  "\<exists>es. trace (snd (summarize_chunks (Some call) (c # cs) acc w))
          = trace w @ Abstractive c # es"
proof (cases "call c")
  case (Inl x)
  then show ?thesis by simp
next
  case (Inr summary)
  obtain es where "trace (snd (summarize_chunks (Some call) cs (acc @ [strip summary])
                      (emit (Abstractive c) w)))
                   = trace (emit (Abstractive c) w) @ es"
    using changes_only_trace [OF changes_only_summarize_chunks] by blast
  with Inr show ?thesis by simp
qed

lemma abstractive_summary_snd:
  "snd (abstractive_summary text summarizer w)
     = snd (summarize_chunks summarizer (chunks_of text) [] w)"
  by (simp add: abstractive_summary_def split: prod.splits sum.splits)

lemma abstractive_summary_first:
  assumes "text \<noteq> []"
  shows "\<exists>es. trace (snd (abstractive_summary text (Some call) w))
              = trace w @ Abstractive (take 5000 text) # es"
  unfolding abstractive_summary_snd
  by (subst chunks_of_first [OF assms]) (rule summarize_chunks_first)

lemma abstractive_item_trace:
  assumes "\<not> exists_file w (SummDir, stem name @ ''_summary.txt'')"
    and "read_text w (TransDir, name) = Inr raw" and "\<not> length (strip raw) < 100"
  shows "\<exists>es. trace (summarize_item env False (Some call) w name)
                = trace w @ Abstractive (take 5000 (strip raw)) # es"
proof -
  have "strip raw \<noteq> []" using assms(3) by auto
  then obtain es1 where es1: "trace (snd (abstractive_summary (strip raw) (Some call) w))
              = trace w @ Abstractive (take 5000 (strip raw)) # es1"
    using abstractive_summary_first by blast
  obtain es2 where "trace (finish_item name
        (then_do (abstractive_summary (strip raw) (Some call) w) (store_summary env name)))
      = trace (snd (abstractive_summary (strip raw) (Some call) w)) @ es2"
    using item_trace_after_call by blast
  with es1 show ?thesis
    by (simp add: summarize_item_pending [OF assms])
qed

lemma abstractive_summary_fst:
  "\<forall>c \<in> set (chunks_of text). call c = Inr (f c) \<Longrightarrow>
     fst (abstractive_summary text (Some call) w)
       = Inr (join '' '' (map (\<lambda>c. strip (f c)) (chunks_of text)))"
  using summarize_chunks_ok [of "chunks_of text" call f "[]" w]
  by (simp add: abstractive_summary_def)

lemma abstractive_item_content:
  assumes "\<not> exists_file w (SummDir, stem name @ ''_summary.txt'')"
    and "read_text w (TransDir, name) = Inr raw" and "\<not> length (strip raw) < 100"
    and "\<forall>c \<in> set (chunks_of (strip raw)). call c = Inr (f c)"
    and "write_fault env (SummDir, stem name @ ''_summary.txt'') = NoFault"
  shows "map_of (files (summarize_item env False (Some call) w name))
           (SummDir, stem name @ ''_summary.txt'')
         = Some (Text (join '' '' (map (\<lambda>c. strip (f c)) (chunks_of (strip raw)))))"
  using item_content_after_call [OF abstractive_summary_fst [OF assms(4)] assms(5), of w]
  by (simp add: summarize_item_pending [OF assms(1,2,3)])

lemma read_text_cong:
  "map_of (files w') p = map_of (files w) p \<Longrightarrow> read_text w' p = read_text w p"
  by (simp add: read_text_def)

lemma exists_file_cong:
  "map_of (files w') p = map_of (files w) p \<Longrightarrow> exists_file w' p = exists_file w p"
  by (simp add: exists_file_def)

lemma summary_path_notin:
  "stem m \<noteq> a \<Longrightarrow> (SummDir, a @ ''_summary.txt'') \<notin> summary_paths (stem m)"
  by (simp add: summary_paths_def)

lemma transcript_notin_summary_paths: "(TransDir, n) \<notin> summary_paths a"
  by (simp add: summary_paths_def)

lemma run_keeps_summary:
  assumes "map_of (files w) (SummDir, stem name @ ''_summary.txt'') = Some c"
  shows "map_of (files (foldl (summarize_item env b s) w ns))
           (SummDir, stem name @ ''_summary.txt'') = Some c"
  using assms
proof (induction ns arbitrary: w)
  case Nil
  then show ?case by simp
next
  case (Cons m ns)
  have "map_of (files (summarize_item env b s w m)) (SummDir, stem name @ ''_summary.txt'')
          = Some c"
  proof (cases "stem m = stem name")
    case True
    then have "exists_file w (SummDir, stem m @ ''_summary.txt'')"
      using Cons.prems by (simp add: exists_file_def)
    then show ?thesis using Cons.prems by (simp add: summarize_item_skip)
  next
    case False
    have "map_of (files (summarize_item env b s w m)) (SummDir, stem name @ ''_summary.txt'')
            = map_of (files w) (SummDir, stem name @ ''_summary.txt'')"
      by (rule changes_only_files [OF changes_only_summarize_item])
        (rule summary_path_notin [OF False])
    with Cons.prems show ?thesis by simp
  qed
  then show ?case by (simp add: Cons.IH)
qed

lemma pending_preserved:
  assumes "stem m \<noteq> stem name"
  shows "exists_file (summarize_item env b s w m) (SummDir, stem name @ ''_summary.txt'')
           = exists_file w (SummDir, stem name @ ''_summary.txt'')"
    and "read_text (summarize_item env b s w m) (TransDir, name) = read_text w (TransDir, name)"
proof -
  show "exists_file (summarize_item env b s w m) (SummDir, stem name @ ''_summary.txt'')
           = exists_file w (SummDir, stem name @ ''_summary.txt'')"
    by (rule exists_file_cong, rule changes_only_files [OF changes_only_summarize_item])
      (rule summary_path_notin [OF assms])
  show "read_text (summarize_item env b s w m) (TransDir, name) = read_text w (TransDir, name)"
    by (rule read_text_cong, rule changes_only_files [OF changes_only_summarize_item])
      (rule transcript_notin_summary_paths)
qed

lemma run_reaches_event:
  assumes "name \<in> set ns"
    and "\<forall>m \<in> set ns. m \<noteq> name \<longrightarrow> stem m \<noteq> stem name"
    and "\<not> exists_file w (SummDir, stem name @ ''_summary.txt'')"
    and "read_text w (TransDir, name) = Inr raw"
    and item: "\<And>w1. \<not> exists_file w1 (SummDir, stem name @ ''_summary.txt'') \<Longrightarrow>
              read_text w1 (TransDir, name) = Inr raw \<Longrightarrow>
              \<exists>es. trace (summarize_item env b s w1 name) = trace w1 @ e # es"
  shows "\<exists>es. trace (foldl (summarize_item env b s) w ns) = trace w @ es \<and> e \<in> set es"
  using assms(1-4)
proof (induction ns arbitrary: w)
  case Nil
  then show ?case by simp
next
  case (Cons m ns)
  let ?w1 = "summarize_item env b s w m"
  show ?case
  proof (cases "m = name")
    case True
    obtain es1 where es1: "trace ?w1 = trace w @ e # es1"
      using item [OF Cons.prems(3,4)] True by blast
    obtain es2 where es2: "trace (foldl (summarize_item env b s) ?w1 ns) = trace ?w1 @ es2"
      using summarizer_run_events by blast
    have "trace (foldl (summarize_item env b s) w (m # ns)) = trace w @ (e # es1 @ es2)"
      by (simp add: es1 es2)
    moreover have "e \<in> set (e # es1 @ es2)" by simp
    ultimately show ?thesis by blast
  next
    case False
    then have diff: "stem m \<noteq> stem name" using Cons.prems(2) by simp
    have in_rest: "name \<in> set ns" using Cons.prems(1) False by auto
    have uniq: "\<forall>m \<in> set ns. m \<noteq> name \<longrightarrow> stem m \<noteq> stem name"
      using Cons.prems(2) by simp
    have fresh: "\<not> exists_file ?w1 (SummDir, stem name @ ''_summary.txt'')"
      using Cons.prems(3) by (simp add: pending_preserved(1) [OF diff])
    have read: "read_text ?w1 (TransDir, name) = Inr raw"
      using Cons.prems(4) by (simp add: pending_preserved(2) [OF diff])
    obtain es2 where es2: "trace (foldl (summarize_item env b s) ?w1 ns) = trace ?w1 @ es2"
      "e \<in> set es2"
      using Cons.IH [OF in_rest uniq fresh read] by blast
    obtain es1 where es1: "trace ?w1 = trace w @ es1"
      using changes_only_trace [OF changes_only_summarize_item] by blast
    have "trace (foldl (summarize_item env b s) w (m # ns)) = trace w @ (es1 @ es2)"
      by (simp add: es1 es2)
    moreover have "e \<in> set (es1 @ es2)" using es2(2) by simp
    ultimately show ?thesis by blast
  qed
qed

lemma run_reaches_content:
  assumes "name \<in> set ns"
    and "\<forall>m \<in> set ns. m \<noteq> name \<longrightarrow> stem m \<noteq> stem name"
    and "\<not> exists_file w (SummDir, stem name @ ''_summary.txt'')"
    and "read_text w (TransDir, name) = Inr raw"
    and item: "\<And>w1. \<not> exists_file w1 (SummDir, stem name @ ''_summary.txt'') \<Longrightarrow>
              read_text w1 (TransDir, name) = Inr raw \<Longrightarrow>
              map_of (files (summarize_item env b s w1 name))
                (SummDir, stem name @ ''_summary.txt'') = Some c"
  shows "map_of (files (foldl (summarize_item env b s) w ns))
           (SummDir, stem name @ ''_summary.txt'') = Some c"
  using assms(1-4)
proof (induction ns arbitrary: w)
  case Nil
  then show ?case by simp
next
  case (Cons m ns)
  let ?w1 = "summarize_item env b s w m"
  show ?case
  proof (cases "m = name")
    case True
    have "map_of (files ?w1) (SummDir, stem name @ ''_summary.txt'') = Some c"
      using item [OF Cons.prems(3,4)] True by simp
    then show ?thesis by (simp add: run_keeps_summary)
  next
    case False
    then have diff: "stem m \<noteq> stem name" using Cons.prems(2) by simp
    have in_rest: "name \<in> set ns" using Cons.prems(1) False by auto
    have uniq: "\<forall>m \<in> set ns. m \<noteq> name \<longrightarrow> stem m \<noteq> stem name"
      using Cons.prems(2) by simp
    have fresh: "\<not> exists_file ?w1 (SummDir, stem name @ ''_summary.txt'')"
      using Cons.prems(3) by (simp add: pending_preserved(1) [OF diff])
    have read: "read_text ?w1 (TransDir, name) = Inr raw"
      using Cons.prems(4) by (simp add: pending_preserved(2) [OF diff])
    show ?thesis
      using Cons.IH [OF in_rest uniq fresh read] by simp
  qed
qed

section \<open>One strategy per run\<close>

lemma strategy_events:
  "(\<forall>x. pipeline env = Inl x \<longrightarrow>
      (\<exists>rest. new_events w (summarizer_main env w) = Fallback x # rest \<and>
         (\<forall>ev \<in> set rest. (\<forall>c. ev \<noteq> Abstractive c) \<and> (\<forall>y. ev \<noteq> Fallback y))))
   \<and> (\<forall>call. pipeline env = Inr call \<longrightarrow>
      (\<forall>ev \<in> set (new_events w (summarizer_main env w)).
         (\<forall>t. ev \<noteq> Extractive t) \<and> (\<forall>y. ev \<noteq> Fallback y)))"
proof (intro conjI allI impI)
  fix x assume x: "pipeline env = Inl x"
  let ?w0 = "emit (Fallback x) w"
  obtain es where es: "trace (summarizer_main env w) = trace ?w0 @ es"
      "set es \<subseteq> (\<Union>n \<in> set (transcripts ?w0). summarize_events True n)"
    unfolding summarizer_main_fails [OF x]
    using summarizer_run_events [of env True None ?w0 "transcripts ?w0"] by (elim exE conjE)
  have "new_events w (summarizer_main env w) = Fallback x # es"
    by (rule new_events_append) (simp add: es)
  moreover have "(\<forall>c. ev \<noteq> Abstractive c) \<and> (\<forall>y. ev \<noteq> Fallback y)" if "ev \<in> set es" for ev
  proof -
    from that es(2) obtain n where "ev \<in> summarize_events True n" by blast
    then show ?thesis by (auto simp: summarize_events_def)
  qed
  ultimately show "\<exists>rest. new_events w (summarizer_main env w) = Fallback x # rest \<and>
         (\<forall>ev \<in> set rest. (\<forall>c. ev \<noteq> Abstractive c) \<and> (\<forall>y. ev \<noteq> Fallback y))"
    by blast
next
  fix call assume call: "pipeline env = Inr call"
  obtain es where es: "trace (summarizer_main env w) = trace w @ es"
      "set es \<subseteq> (\<Union>n \<in> set (transcripts w). summarize_events False n)"
    unfolding summarizer_main_loads [OF call]
    using summarizer_run_events [of env False "Some call" w "transcripts w"] by (elim exE conjE)
  have new: "new_events w (summarizer_main env w) = es"
    by (rule new_events_append) (simp add: es)
  show "\<forall>ev \<in> set (new_events w (summarizer_main env w)).
         (\<forall>t. ev \<noteq> Extractive t) \<and> (\<forall>y. ev \<noteq> Fallback y)"
  proof (rule ballI)
    fix ev assume "ev \<in> set (new_events w (summarizer_main env w))"
    with new es(2) obtain n where "ev \<in> summarize_events False n" by blast
    then show "(\<forall>t. ev \<noteq> Extractive t) \<and> (\<forall>y. ev \<noteq> Fallback y)"
      by (auto simp: summarize_events_def)
  qed
qed

lemma pending_emit: "pending (emit e w) name raw = pending w name raw"
  by (simp add: pending_def transcripts_def listdir_def exists_file_def read_text_def)

lemma transcripts_emit [simp]: "transcripts (emit e w) = transcripts w"
  by (simp add: transcripts_def listdir_def)

lemma fallback_run_item:
  assumes x: "pipeline env = Inl x" and p: "pending w name raw"
  shows "\<exists>rest. new_events w (summarizer_main env w) = Fallback x # rest
           \<and> Extractive (strip raw) \<in> set rest"
    and "lex_rank env (strip raw) 5 = Inr sentences \<Longrightarrow>
         write_fault env (SummDir, stem name @ ''_summary.txt'') = NoFault \<Longrightarrow>
         map_of (files (summarizer_main env w)) (SummDir, stem name @ ''_summary.txt'')
           = Some (Text (join '' '' sentences))"
proof -
  let ?w0 = "emit (Fallback x) w"
  have p0: "pending ?w0 name raw" using p by (simp add: pending_emit)
  then have listed: "name \<in> set (transcripts ?w0)"
    and uniq: "\<forall>m \<in> set (transcripts ?w0). m \<noteq> name \<longrightarrow> stem m \<noteq> stem name"
    and fresh: "\<not> exists_file ?w0 (SummDir, stem name @ ''_summary.txt'')"
    and read: "read_text ?w0 (TransDir, name) = Inr raw"
    and long: "\<not> length (strip raw) < 100"
    by (simp_all add: pending_def)
  have main: "summarizer_main env w
      = foldl (summarize_item env True None) ?w0 (transcripts ?w0)"
    by (rule summarizer_main_fails [OF x])
  obtain es where es: "trace (summarizer_main env w) = trace ?w0 @ es"
      "Extractive (strip raw) \<in> set es"
    unfolding main
    using run_reaches_event [OF listed uniq fresh read, of env True None "Extractive (strip raw)"]
      extractive_item_trace [OF _ _ long] by blast
  have "new_events w (summarizer_main env w) = Fallback x # es"
    by (rule new_events_append) (simp add: es)
  with es(2) show "\<exists>rest. new_events w (summarizer_main env w) = Fallback x # rest
           \<and> Extractive (strip raw) \<in> set rest" by blast
  show "map_of (files (summarizer_main env w)) (SummDir, stem name @ ''_summary.txt'')
           = Some (Text (join '' '' sentences))"
    if "lex_rank env (strip raw) 5 = Inr sentences"
      and "write_fault env (SummDir, stem name @ ''_summary.txt'') = NoFault"
    unfolding main
    by (rule run_reaches_content [OF listed uniq fresh read])
      (rule extractive_item_content [OF _ _ long that])
qed

lemma loaded_run_item:
  assumes call: "pipeline env = Inr call" and p: "pending w name raw"
  shows "Abstractive (take 5000 (strip raw)) \<in> set (new_events w (summarizer_main env w))"
    and "\<forall>c \<in> set (chunks_of (strip raw)). call c = Inr (f c) \<Longrightarrow>
         write_fault env (SummDir, stem name @ ''_summary.txt'') = NoFault \<Longrightarrow>
         map_of (files (summarizer_main env w)) (SummDir, stem name @ ''_summary.txt'')
           = Some (Text (join '' '' (map (\<lambda>c. strip (f c)) (chunks_of (strip raw)))))"
proof -
  from p have listed: "name \<in> set (transcripts w)"
    and uniq: "\<forall>m \<in> set (transcripts w). m \<noteq> name \<longrightarrow> stem m \<noteq> stem name"
    and fresh: "\<not> exists_file w (SummDir, stem name @ ''_summary.txt'')"
    and read: "read_text w (TransDir, name) = Inr raw"
    and long: "\<not> length (strip raw) < 100"
    by (simp_all add: pending_def)
  have main: "summarizer_main env w
      = foldl (summarize_item env False (Some call)) w (transcripts w)"
    by (rule summarizer_main_loads [OF call])
  obtain es where es: "trace (summarizer_main env w) = trace w @ es"
      "Abstractive (take 5000 (strip raw)) \<in> set es"
    unfolding main
    using run_reaches_event [OF listed uniq fresh read, of env False "Some call"
        "Abstractive (take 5000 (strip raw))"]
      abstractive_item_trace [OF _ _ long] by blast
  have "new_events w (summarizer_main env w) = es"
    by (rule new_events_append) (simp add: es)
  with es(2) show "Abstractive (take 5000 (strip raw))
      \<in> set (new_events w (summarizer_main env w))" by simp
  show "map_of (files (summarizer_main env w)) (SummDir, stem name @ ''_summary.txt'')
           = Some (Text (join '' '' (map (\<lambda>c. strip (f c)) (chunks_of (strip raw)))))"
    if "\<forall>c \<in> set (chunks_of (strip raw)). call c = Inr (f c)"
      and "write_fault env (SummDir, stem name @ ''_summary.txt'') = NoFault"
    unfolding main
    by (rule run_reaches_content [OF listed uniq fresh read])
      (rule abstractive_item_content [OF _ _ long that])
qed

text \<open>
  C7.  The strategy is fixed by the one attempt to load the pipeline, before the loop.

  When loading raises, the run prints the fallback warning once, as its first event, and
  no later event is an abstractive call; every pending transcript (see \<open>pending\<close>) is
  passed to the extractive summarizer, and when that returns and the summary file can be
  written, the file holds the extractive summary.

  When loading returns, the run has no extractive call and no fallback warning; the
  first chunk of every pending transcript is passed to the pipeline, and when the
  pipeline returns on every chunk and the summary file can be written, the file holds
  the abstractive summary.

  Hence no run mixes the two strategies.
\<close>

theorem strategy_fallback_determinism:
  "(\<forall>x. pipeline env = Inl x \<longrightarrow>
      (\<exists>rest. new_events w (summarizer_main env w) = Fallback x # rest \<and>
         (\<forall>ev \<in> set rest. (\<forall>c. ev \<noteq> Abstractive c) \<and> (\<forall>y. ev \<noteq> Fallback y))) \<and>
      (\<forall>name raw. pending w name raw \<longrightarrow>
         Extractive (strip raw) \<in> set (new_events w (summarizer_main env w)) \<and>
         (\<forall>sentences.
            lex_rank env (strip raw) 5 = Inr sentences \<and>
            write_fault env (SummDir, stem name @ ''_summary.txt'') = NoFault \<longrightarrow>
            map_of (files (summarizer_main env w)) (SummDir, stem name @ ''_summary.txt'')
              = Some (Text (join '' '' sentences)))))
   \<and> (\<forall>call. pipeline env = Inr call \<longrightarrow>
      (\<forall>ev \<in> set (new_events w (summarizer_main env w)).
         (\<forall>t. ev \<noteq> Extractive t) \<and> (\<forall>y. ev \<noteq> Fallback y)) \<and>
      (\<forall>name raw. pending w name raw \<longrightarrow>
         Abstractive (take 5000 (strip raw)) \<in> set (new_events w (summarizer_main env w)) \<and>
         (\<forall>f. (\<forall>c \<in> set (chunks_of (strip raw)). call c = Inr (f c)) \<and>
              write_fault env (SummDir, stem name @ ''_summary.txt'') = NoFault \<longrightarrow>
            map_of (files (summarizer_main env w)) (SummDir, stem name @ ''_summary.txt'')
              = Some (Text (join '' '' (map (\<lambda>c. strip (f c)) (chunks_of (strip raw))))))))"
proof (intro conjI allI impI)
  fix x assume x: "pipeline env = Inl x"
  from strategy_events [of env w] x
  show "\<exists>rest. new_events w (summarizer_main env w) = Fallback x # rest \<and>
         (\<forall>ev \<in> set rest. (\<forall>c. ev \<noteq> Abstractive c) \<and> (\<forall>y. ev \<noteq> Fallback y))"
    by blast
next
  fix x name raw assume x: "pipeline env = Inl x" and p: "pending w name raw"
  from fallback_run_item(1) [OF x p]
  show "Extractive (strip raw) \<in> set (new_events w (summarizer_main env w))"
    by auto
next
  fix x name raw sentences
  assume x: "pipeline env = Inl x" and p: "pending w name raw"
    and ok: "lex_rank env (strip raw) 5 = Inr sentences \<and>
            write_fault env (SummDir, stem name @ ''_summary.txt'') = NoFault"
  from ok show "map_of (files (summarizer_main env w)) (SummDir, stem name @ ''_summary.txt'')
              = Some (Text (join '' '' sentences))"
    using fallback_run_item(2) [OF x p] by blast
next
  fix call assume call: "pipeline env = Inr call"
  from strategy_events [of env w] call
  show "\<forall>ev \<in> set (new_events w (summarizer_main env w)).
         (\<forall>t. ev \<noteq> Extractive t) \<and> (\<forall>y. ev \<noteq> Fallback y)"
    by blast
next
  fix call name raw assume call: "pipeline env = Inr call" and p: "pending w name raw"
  show "Abstractive (take 5000 (strip raw)) \<in> set (new_events w (summarizer_main env w))"
    by (rule loaded_run_item(1) [OF call p])
next
  fix call name raw f
  assume call: "pipeline env = Inr call" and p: "pending w name raw"
    and ok: "(\<forall>c \<in> set (chunks_of (strip raw)). call c = Inr (f c)) \<and>
              write_fault env (SummDir, stem name @ ''_summary.txt'') = NoFault"
  from ok show "map_of (files (summarizer_main env w)) (SummDir, stem name @ ''_summary.txt'')
              = Some (Text (join '' '' (map (\<lambda>c. strip (f c)) (chunks_of (strip raw)))))"
    using loaded_run_item(2) [OF call p] by blast
qed

theorem strategy_fallback_determinism_witness:
  "pipeline demo_env = Inl (CollaboratorError ''no model'')
   \<and> pending summ_world ''a.txt'' (replicate 120 CHR ''a'')
   \<and> Extractive (strip (replicate 120 CHR ''a''))
       \<in> set (new_events summ_world (summarizer_main demo_env summ_world))
   \<and> map_of (files (summarizer_main demo_env summ_world))
         (SummDir, stem ''a.txt'' @ ''_summary.txt'')
       = Some (Text (join '' '' [take 10 (strip (replicate 120 CHR ''a''))]))
   \<and> new_events summ_world (summarizer_main demo_env summ_world)
       = [Fallback (CollaboratorError ''no model''), Extractive (replicate 120 CHR ''a''),
          Wrote (SummDir, ''a_summary.txt''), Wrote (MetaDir, ''a.json'')]
   \<and> pipeline abstractive_env = Inr demo_call
   \<and> Abstractive (take 5000 (strip (replicate 120 CHR ''a'')))
       \<in> set (new_events summ_world (summarizer_main abstractive_env summ_world))
   \<and> map_of (files (summarizer_main abstractive_env summ_world))
         (SummDir, stem ''a.txt'' @ ''_summary.txt'')
       = Some (Text (join '' '' (map (\<lambda>c. strip ('' sum of '' @ take 3 c @ '' ''))
                                   (chunks_of (strip (replicate 120 CHR ''a''))))))
   \<and> new_events summ_world (summarizer_main abstractive_env summ_world)
       = [Abstractive (replicate 120 CHR ''a''),
          Wrote (SummDir, ''a_summary.txt''), Wrote (MetaDir, ''a.json'')]"
proof -
  have fails: "pipeline demo_env = Inl (CollaboratorError ''no model'')"
    by (simp add: demo_env_def)
  have loads: "pipeline abstractive_env = Inr demo_call"
    by (simp add: abstractive_env_def)
  have pend: "pending summ_world ''a.txt'' (replicate 120 CHR ''a'')"
    by code_simp
  have ranked: "lex_rank demo_env (strip (replicate 120 CHR ''a'')) 5
                  = Inr [take 10 (strip (replicate 120 CHR ''a''))]
                \<and> write_fault demo_env (SummDir, stem ''a.txt'' @ ''_summary.txt'') = NoFault"
    by (simp add: demo_env_def)
  have returns: "(\<forall>c \<in> set (chunks_of (strip (replicate 120 CHR ''a''))).
                    demo_call c = Inr ('' sum of '' @ take 3 c @ '' ''))
                \<and> write_fault abstractive_env (SummDir, stem ''a.txt'' @ ''_summary.txt'')
                    = NoFault"
    by (simp add: demo_call_def abstractive_env_def demo_env_def)
  have run1: "new_events summ_world (summarizer_main demo_env summ_world)
       = [Fallback (CollaboratorError ''no model''), Extractive (replicate 120 CHR ''a''),
          Wrote (SummDir, ''a_summary.txt''), Wrote (MetaDir, ''a.json'')]"
    by code_simp
  have run2: "new_events summ_world (summarizer_main abstractive_env summ_world)
       = [Abstractive (replicate 120 CHR ''a''),
          Wrote (SummDir, ''a_summary.txt''), Wrote (MetaDir, ''a.json'')]"
    by code_simp
  note ext = strategy_fallback_determinism
    [of demo_env summ_world, THEN conjunct1, THEN spec, THEN mp, OF fails,
     THEN conjunct2, THEN spec, THEN spec, THEN mp, OF pend]
  note abs = strategy_fallback_determinism
    [of abstractive_env summ_world, THEN conjunct2, THEN spec, THEN mp, OF loads,
     THEN conjunct2, THEN spec, THEN spec, THEN mp, OF pend]
  note e1 = ext [THEN conjunct1]
  note e2 = ext [THEN conjunct2, THEN spec, THEN mp, OF ranked]
  note a1 = abs [THEN conjunct1]
  note a2 = abs [THEN conjunct2, THEN spec, THEN mp, OF returns]
  from fails pend e1 e2 run1 loads a1 a2 run2 show ?thesis
    by - (intro conjI; assumption)
qed

section \<open>Transcripts too short to summarize\<close>

lemma summarizer_run_short:
  assumes "read_text w (TransDir, name) = Inr raw" and "length (strip raw) < 100"
  shows "changes_only (\<Union>n \<in> {n \<in> set ns. n \<noteq> name}. summary_paths (stem n))
           (\<Union>n \<in> {n \<in> set ns. n \<noteq> name}. summarize_events b n)
           w (foldl (summarize_item env b s) w ns)"
  using assms(1)
proof (induction ns arbitrary: w)
  case Nil
  show ?case by (simp add: changes_only_refl)
next
  case (Cons m ns)
  let ?S = "\<Union>n \<in> {n \<in> set (m # ns). n \<noteq> name}. summary_paths (stem n)"
  let ?E = "\<Union>n \<in> {n \<in> set (m # ns). n \<noteq> name}. summarize_events b n"
  let ?w1 = "summarize_item env b s w m"
  have one: "changes_only (summary_paths (stem m)) (summarize_events b m) w ?w1"
    by (rule changes_only_summarize_item)
  have step: "changes_only ?S ?E w ?w1"
  proof (cases "m = name")
    case True
    have "summarize_item env b s w name = w"
      using Cons.prems assms(2) by (rule summarize_item_short)
    then have "?w1 = w" using True by simp
    then show ?thesis by (simp only: changes_only_refl)
  next
    case False
    have "m \<in> {n \<in> set (m # ns). n \<noteq> name}" using False by simp
    then have "summary_paths (stem m) \<subseteq> ?S" and "summarize_events b m \<subseteq> ?E"
      by blast+
    with one show ?thesis by (rule changes_only_mono)
  qed
  have "(TransDir, name) \<notin> summary_paths (stem m)"
    by (simp add: summary_paths_def)
  with one have "map_of (files ?w1) (TransDir, name) = map_of (files w) (TransDir, name)"
    by (rule changes_only_files)
  then have "read_text ?w1 (TransDir, name) = read_text w (TransDir, name)"
    by (rule read_text_cong)
  then have "read_text ?w1 (TransDir, name) = Inr raw"
    using Cons.prems by simp
  then have "changes_only (\<Union>n \<in> {n \<in> set ns. n \<noteq> name}. summary_paths (stem n))
           (\<Union>n \<in> {n \<in> set ns. n \<noteq> name}. summarize_events b n)
           ?w1 (foldl (summarize_item env b s) ?w1 ns)"
    by (rule Cons.IH)
  moreover have "{n \<in> set ns. n \<noteq> name} \<subseteq> {n \<in> set (m # ns). n \<noteq> name}"
    by auto
  then have "(\<Union>n \<in> {n \<in> set ns. n \<noteq> name}. summary_paths (stem n)) \<subseteq> ?S"
    and "(\<Union>n \<in> {n \<in> set ns. n \<noteq> name}. summarize_events b n) \<subseteq> ?E"
    by blast+
  ultimately have "changes_only ?S ?E ?w1 (foldl (summarize_item env b s) ?w1 ns)"
    by (rule changes_only_mono)
  with step have "changes_only ?S ?E w (foldl (summarize_item env b s) ?w1 ns)"
    by (rule changes_only_trans)
  then show ?case by (simp only: foldl_Cons)
qed

lemma choose_strategy_frame:
  "changes_only {} (range Fallback) w (snd (choose_strategy env w))"
proof (cases "pipeline env")
  case (Inl x)
  have "changes_only {} (range Fallback) w (emit (Fallback x) w)"
    by (rule changes_only_mono [OF changes_only_emit]) auto
  with Inl show ?thesis by (simp add: choose_strategy_fails)
next
  case (Inr call)
  then show ?thesis by (simp add: choose_strategy_loads changes_only_refl)
qed

lemma summarizer_main_unfold:
  "summarizer_main env w
     = foldl (summarize_item env (fst (fst (choose_strategy env w)))
                (snd (fst (choose_strategy env w))))
         (snd (choose_strategy env w)) (transcripts (snd (choose_strategy env w)))"
proof (cases "pipeline env")
  case (Inl x)
  then show ?thesis by (simp add: summarizer_main_fails choose_strategy_fails)
next
  case (Inr call)
  then show ?thesis by (simp add: summarizer_main_loads choose_strategy_loads)
qed

lemma listdir_choose_strategy:
  "listdir (snd (choose_strategy env w)) d = listdir w d"
  by (rule changes_only_listdir [OF choose_strategy_frame]) simp

lemma transcripts_choose_strategy:
  "transcripts (snd (choose_strategy env w)) = transcripts w"
  by (simp only: transcripts_def listdir_choose_strategy)

lemma summarizer_main_short:
  assumes "read_text w (TransDir, name) = Inr raw" and "length (strip raw) < 100"
  shows "changes_only (\<Union>n \<in> {n \<in> set (transcripts w). n \<noteq> name}. summary_paths (stem n))
           (range Fallback \<union> (\<Union>n \<in> {n \<in> set (transcripts w). n \<noteq> name}.
              summarize_events (fst (fst (choose_strategy env w))) n))
           w (summarizer_main env w)"
    (is "changes_only ?S ?E w _")
proof -
  let ?w0 = "snd (choose_strategy env w)"
  have c0: "changes_only ?S ?E w ?w0"
    by (rule changes_only_mono [OF choose_strategy_frame]) auto
  have "map_of (files ?w0) (TransDir, name) = map_of (files w) (TransDir, name)"
    using choose_strategy_frame by (rule changes_only_files) simp
  then have "read_text ?w0 (TransDir, name) = read_text w (TransDir, name)"
    by (rule read_text_cong)
  then have "read_text ?w0 (TransDir, name) = Inr raw"
    using assms(1) by simp
  from summarizer_run_short [OF this assms(2)]
  have "changes_only ?S ?E ?w0 (summarizer_main env w)"
    unfolding summarizer_main_unfold [of env w] transcripts_choose_strategy
    by (rule changes_only_mono) auto
  with c0 show ?thesis by (rule changes_only_trans)
qed

lemma summary_paths_disjoint:
  "p \<in> summary_paths a \<Longrightarrow> p \<in> summary_paths b \<Longrightarrow> a = b"
  by (auto simp: summary_paths_def)

lemma summary_paths_own:
  "(SummDir, a @ ''_summary.txt'') \<in> summary_paths a" "(MetaDir, a @ ''.json'') \<in> summary_paths a"
  by (simp_all add: summary_paths_def)

lemma Wrote_summarize_events:
  "Wrote p \<in> summarize_events b n \<Longrightarrow> p \<in> summary_paths (stem n)"
  by (auto simp: summarize_events_def split: if_splits)

text \<open>
  C6.  Let the transcript file \<open>name\<close> read as \<open>raw\<close> with fewer than 100 characters after
  trimming.  Its turn of the Summarizer's loop changes nothing (no file, no event, hence
  no summary, no warning and no metadata update), and the loop goes on with the next
  item.  In a whole run no warning is printed for it; and when no other listed
  transcript has its stem (and so its summary file and its record), the run leaves its
  summary file and its Metadata Record as they were and opens neither for writing.
\<close>

theorem minimum_length_skip:
  assumes "read_text w (TransDir, name) = Inr raw" and "length (strip raw) < 100"
  shows "summarize_item env use_extractive summarizer w name = w
       \<and> foldl (summarize_item env use_extractive summarizer) w (name # rest)
           = foldl (summarize_item env use_extractive summarizer) w rest
       \<and> (\<forall>x. Warn name x \<notin> set (new_events w (summarizer_main env w)))
       \<and> ((\<forall>n \<in> set (transcripts w). n \<noteq> name \<longrightarrow> stem n \<noteq> stem name) \<longrightarrow>
            map_of (files (summarizer_main env w)) (SummDir, stem name @ ''_summary.txt'')
              = map_of (files w) (SummDir, stem name @ ''_summary.txt'')
          \<and> map_of (files (summarizer_main env w)) (MetaDir, stem name @ ''.json'')
              = map_of (files w) (MetaDir, stem name @ ''.json'')
          \<and> Wrote (SummDir, stem name @ ''_summary.txt'')
               \<notin> set (new_events w (summarizer_main env w))
          \<and> Wrote (MetaDir, stem name @ ''.json'')
               \<notin> set (new_events w (summarizer_main env w)))"
proof -
  let ?b = "fst (fst (choose_strategy env w))"
  let ?S = "\<Union>n \<in> {n \<in> set (transcripts w). n \<noteq> name}. summary_paths (stem n)"
  let ?E = "range Fallback \<union> (\<Union>n \<in> {n \<in> set (transcripts w). n \<noteq> name}.
              summarize_events ?b n)"
  have step: "summarize_item env use_extractive summarizer w name = w"
    using assms by (rule summarize_item_short)
  have c: "changes_only ?S ?E w (summarizer_main env w)"
    using assms by (rule summarizer_main_short)
  have ev: "set (new_events w (summarizer_main env w)) \<subseteq> ?E"
    using c by (rule changes_only_new_events)
  have "Warn name x \<notin> ?E" for x
  proof
    assume "Warn name x \<in> ?E"
    then have "Warn name x \<in> (\<Union>n \<in> {n \<in> set (transcripts w). n \<noteq> name}.
              summarize_events ?b n)" by (simp add: image_iff)
    then obtain n where "n \<noteq> name" "Warn name x \<in> summarize_events ?b n" by blast
    then show False by (simp add: summarize_events_def image_iff split: if_splits)
  qed
  with ev have warn: "\<forall>x. Warn name x \<notin> set (new_events w (summarizer_main env w))"
    by blast
  have others: "map_of (files (summarizer_main env w)) (SummDir, stem name @ ''_summary.txt'')
              = map_of (files w) (SummDir, stem name @ ''_summary.txt'')
          \<and> map_of (files (summarizer_main env w)) (MetaDir, stem name @ ''.json'')
              = map_of (files w) (MetaDir, stem name @ ''.json'')
          \<and> Wrote (SummDir, stem name @ ''_summary.txt'')
               \<notin> set (new_events w (summarizer_main env w))
          \<and> Wrote (MetaDir, stem name @ ''.json'')
               \<notin> set (new_events w (summarizer_main env w))"
    if uniq: "\<forall>n \<in> set (transcripts w). n \<noteq> name \<longrightarrow> stem n \<noteq> stem name"
  proof -
    have notin: "p \<notin> ?S" if "p \<in> summary_paths (stem name)" for p
    proof
      assume "p \<in> ?S"
      then obtain n where n: "n \<in> set (transcripts w)" "n \<noteq> name"
        "p \<in> summary_paths (stem n)" by blast
      from summary_paths_disjoint [OF n(3) that] uniq n(1,2) show False by blast
    qed
    have n1: "(SummDir, stem name @ ''_summary.txt'') \<notin> ?S"
      and n2: "(MetaDir, stem name @ ''.json'') \<notin> ?S"
      by (rule notin, rule summary_paths_own)+
    have notev: "Wrote p \<notin> ?E" if "p \<in> summary_paths (stem name)" for p
    proof
      assume "Wrote p \<in> ?E"
      then have "Wrote p \<in> (\<Union>n \<in> {n \<in> set (transcripts w). n \<noteq> name}.
              summarize_events ?b n)" by (simp add: image_iff)
      then obtain n where n: "n \<in> set (transcripts w)" "n \<noteq> name"
        "Wrote p \<in> summarize_events ?b n" by blast
      from summary_paths_disjoint [OF Wrote_summarize_events [OF n(3)] that] uniq n(1,2)
      show False by blast
    qed
    have e1: "Wrote (SummDir, stem name @ ''_summary.txt'') \<notin> ?E"
      and e2: "Wrote (MetaDir, stem name @ ''.json'') \<notin> ?E"
      by (rule notev, rule summary_paths_own)+
    from e1 e2 ev
    have "Wrote (SummDir, stem name @ ''_summary.txt'')
               \<notin> set (new_events w (summarizer_main env w))"
      and "Wrote (MetaDir, stem name @ ''.json'')
               \<notin> set (new_events w (summarizer_main env w))" by blast+
    with changes_only_files [OF c n1] changes_only_files [OF c n2]
    show ?thesis by (intro conjI)
  qed
  show ?thesis
  proof (intro conjI)
    show "summarize_item env use_extractive summarizer w name = w" by (rule step)
    show "foldl (summarize_item env use_extractive summarizer) w (name # rest)
           = foldl (summarize_item env use_extractive summarizer) w rest"
      by (simp only: foldl_Cons step)
    show "\<forall>x. Warn name x \<notin> set (new_events w (summarizer_main env w))" by (rule warn)
    show "(\<forall>n \<in> set (transcripts w). n \<noteq> name \<longrightarrow> stem n \<noteq> stem name) \<longrightarrow>
            map_of (files (summarizer_main env w)) (SummDir, stem name @ ''_summary.txt'')
              = map_of (files w) (SummDir, stem name @ ''_summary.txt'')
          \<and> map_of (files (summarizer_main env w)) (MetaDir, stem name @ ''.json'')
              = map_of (files w) (MetaDir, stem name @ ''.json'')
          \<and> Wrote (SummDir, stem name @ ''_summary.txt'')
               \<notin> set (new_events w (summarizer_main env w))
          \<and> Wrote (MetaDir, stem name @ ''.json'')
               \<notin> set (new_events w (summarizer_main env w))"
      using others by (rule impI)
  qed
qed

theorem minimum_length_skip_witness:
  "read_text summ_world (TransDir, ''b.txt'') = Inr ''  short  ''
   \<and> length (strip ''  short  '') < 100
   \<and> summarize_item demo_env True None summ_world ''b.txt'' = summ_world
   \<and> map_of (files summ_world) (SummDir, stem ''b.txt'' @ ''_summary.txt'') = None
   \<and> map_of (files (summarizer_main demo_env summ_world))
         (SummDir, stem ''b.txt'' @ ''_summary.txt'')
       = map_of (files summ_world) (SummDir, stem ''b.txt'' @ ''_summary.txt'')
   \<and> map_of (files (summarizer_main demo_env summ_world)) (MetaDir, stem ''b.txt'' @ ''.json'')
       = map_of (files summ_world) (MetaDir, stem ''b.txt'' @ ''.json'')
   \<and> Wrote (MetaDir, stem ''b.txt'' @ ''.json'')
       \<notin> set (new_events summ_world (summarizer_main demo_env summ_world))"
proof -
  have read: "read_text summ_world (TransDir, ''b.txt'') = Inr ''  short  ''"
    by code_simp
  have short: "length (strip ''  short  '') < 100"
    by code_simp
  have absent: "map_of (files summ_world) (SummDir, stem ''b.txt'' @ ''_summary.txt'') = None"
    by code_simp
  have alone: "\<forall>n \<in> set (transcripts summ_world). n \<noteq> ''b.txt'' \<longrightarrow> stem n \<noteq> stem ''b.txt''"
    by code_simp
  note all = minimum_length_skip [OF read short, of demo_env True None "[]"]
  note step = all [THEN conjunct1]
  note run = all [THEN conjunct2, THEN conjunct2, THEN conjunct2, THEN mp, OF alone]
  note r1 = run [THEN conjunct1]
  note r2 = run [THEN conjunct2, THEN conjunct1]
  note r4 = run [THEN conjunct2, THEN conjunct2, THEN conjunct2]
  from read short step absent r1 r2 r4 show ?thesis
    by - (intro conjI; assumption)
qed

section \<open>Updating a Metadata Record\<close>

lemma summary_call_files:
  "map_of (files (snd (if use_extractive then extractive_summary env text w
                       else abstractive_summary text summarizer w))) p
     = map_of (files w) p"
proof (cases use_extractive)
  case True
  then show ?thesis by simp
next
  case False
  have "map_of (files (snd (abstractive_summary text summarizer w))) p = map_of (files w) p"
    by (rule changes_only_files [OF changes_only_abstractive_summary]) simp
  with False show ?thesis by simp
qed

lemma summarizer_keeps_fields:
  assumes meta: "map_of (files w) (MetaDir, stem name @ ''.json'') = Some (Json (JObj kvs))"
    and fresh: "\<not> exists_file w (SummDir, stem name @ ''_summary.txt'')"
    and read: "read_text w (TransDir, name) = Inr raw"
    and long: "\<not> length (strip raw) < 100"
    and ok: "fst (if use_extractive then extractive_summary env (strip raw) w
                  else abstractive_summary (strip raw) summarizer w) = Inr summary_text"
    and f1: "write_fault env (SummDir, stem name @ ''_summary.txt'') = NoFault"
    and f3: "write_fault env (MetaDir, stem name @ ''.json'') = NoFault"
  shows "map_of (files (summarize_item env use_extractive summarizer w name))
           (MetaDir, stem name @ ''.json'')
         = Some (Json (JObj (AList.update ''summary_path''
                (JStr (path_str env (SummDir, stem name @ ''_summary.txt''))) kvs)))"
proof -
  let ?r = "if use_extractive then extractive_summary env (strip raw) w
            else abstractive_summary (strip raw) summarizer w"
  let ?out = "(SummDir, stem name @ ''_summary.txt'')"
  let ?M = "(MetaDir, stem name @ ''.json'')"
  let ?w2 = "emit (Wrote ?out)
               ((snd ?r)\<lparr>files := AList.update ?out (Text summary_text) (files (snd ?r))\<rparr>)"
  from ok have r: "?r = (Inr summary_text, snd ?r)" by (cases ?r) simp
  have "then_do ?r (store_summary env name) = store_summary env name summary_text (snd ?r)"
    by (subst r) (rule then_do_Inr)
  also have "\<dots> = update_meta env (stem name) ''summary_path'' ?out ?w2"
    by (simp add: store_summary_def write_file_ok [OF f1])
  finally have body: "then_do ?r (store_summary env name)
      = update_meta env (stem name) ''summary_path'' ?out ?w2" .
  have "map_of (files ?w2) ?M = map_of (files (snd ?r)) ?M"
    by (simp add: map_of_update_eq)
  also have "\<dots> = Some (Json (JObj kvs))"
    using meta by (simp only: summary_call_files)
  finally have m2: "map_of (files ?w2) ?M = Some (Json (JObj kvs))" .
  have u: "update_meta env (stem name) ''summary_path'' ?out ?w2
      = (Inr (), emit (Wrote ?M)
           (?w2\<lparr>files := AList.update ?M
              (Json (JObj (AList.update ''summary_path'' (JStr (path_str env ?out)) kvs)))
              (files ?w2)\<rparr>))"
    using m2 f3 by (rule update_meta_ok)
  have "summarize_item env use_extractive summarizer w name
          = finish_item name (then_do ?r (store_summary env name))"
    by (rule summarize_item_pending [OF fresh read long])
  then show ?thesis
    by (simp only: body u finish_item_files snd_conv files_emit)
       (simp add: map_of_update_eq)
qed

text \<open>
  C4.  Let the Metadata Record of an item be a JSON object with the members \<open>kvs\<close>.

  When the Transcriber processes the item successfully (no transcript text yet, the
  transcription returns, the three files can be written), the record afterwards is
  \<open>kvs\<close> with \<open>transcript_path\<close> set to the path of the text file: every other member,
  \<open>audio_path\<close> among them, keeps its value and its place.

  When the Summarizer processes the item successfully (no summary yet, a transcript of
  at least 100 characters, the summarizer of the run returns, the two files can be
  written), the record afterwards is \<open>kvs\<close> with \<open>summary_path\<close> set to the path of the
  summary file, and every other member keeps its value and its place.
\<close>

theorem metadata_non_destructive:
  "(map_of (files w) (MetaDir, stem name @ ''.json'') = Some (Json (JObj kvs)) \<and>
    \<not> exists_file w (TransDir, stem name @ ''.txt'') \<and>
    model (path_str env (AudioDir, name)) = Inr segs \<and>
    write_fault env (TransDir, stem name @ ''.txt'') = NoFault \<and>
    write_fault env (TransDir, stem name @ ''.json'') = NoFault \<and>
    write_fault env (MetaDir, stem name @ ''.json'') = NoFault
    \<longrightarrow>
      map_of (files (transcribe_item env model w name)) (MetaDir, stem name @ ''.json'')
        = Some (Json (JObj (AList.update ''transcript_path''
             (JStr (path_str env (TransDir, stem name @ ''.txt''))) kvs))) \<and>
      map_of (AList.update ''transcript_path''
             (JStr (path_str env (TransDir, stem name @ ''.txt''))) kvs) ''transcript_path''
        = Some (JStr (path_str env (TransDir, stem name @ ''.txt''))) \<and>
      (\<forall>k. k \<noteq> ''transcript_path'' \<longrightarrow>
         map_of (AList.update ''transcript_path''
             (JStr (path_str env (TransDir, stem name @ ''.txt''))) kvs) k = map_of kvs k))
   \<and>
   (map_of (files v) (MetaDir, stem tname @ ''.json'') = Some (Json (JObj kvs')) \<and>
    \<not> exists_file v (SummDir, stem tname @ ''_summary.txt'') \<and>
    read_text v (TransDir, tname) = Inr raw \<and>
    \<not> length (strip raw) < 100 \<and>
    fst (if use_extractive then extractive_summary env' (strip raw) v
         else abstractive_summary (strip raw) summarizer v) = Inr summary_text \<and>
    write_fault env' (SummDir, stem tname @ ''_summary.txt'') = NoFault \<and>
    write_fault env' (MetaDir, stem tname @ ''.json'') = NoFault
    \<longrightarrow>
      map_of (files (summarize_item env' use_extractive summarizer v tname))
          (MetaDir, stem tname @ ''.json'')
        = Some (Json (JObj (AList.update ''summary_path''
             (JStr (path_str env' (SummDir, stem tname @ ''_summary.txt''))) kvs'))) \<and>
      map_of (AList.update ''summary_path''
             (JStr (path_str env' (SummDir, stem tname @ ''_summary.txt''))) kvs') ''summary_path''
        = Some (JStr (path_str env' (SummDir, stem tname @ ''_summary.txt''))) \<and>
      (\<forall>k. k \<noteq> ''summary_path'' \<longrightarrow>
         map_of (AList.update ''summary_path''
             (JStr (path_str env' (SummDir, stem tname @ ''_summary.txt''))) kvs') k
           = map_of kvs' k))"
proof (intro conjI impI allI; (elim conjE)?)
  assume "map_of (files w) (MetaDir, stem name @ ''.json'') = Some (Json (JObj kvs))"
    "\<not> exists_file w (TransDir, stem name @ ''.txt'')"
    "model (path_str env (AudioDir, name)) = Inr segs"
    "write_fault env (TransDir, stem name @ ''.txt'') = NoFault"
    "write_fault env (TransDir, stem name @ ''.json'') = NoFault"
    "write_fault env (MetaDir, stem name @ ''.json'') = NoFault"
  then show "map_of (files (transcribe_item env model w name)) (MetaDir, stem name @ ''.json'')
        = Some (Json (JObj (AList.update ''transcript_path''
             (JStr (path_str env (TransDir, stem name @ ''.txt''))) kvs)))"
    by (rule transcriber_keeps_fields)
next
  assume "map_of (files v) (MetaDir, stem tname @ ''.json'') = Some (Json (JObj kvs'))"
    "\<not> exists_file v (SummDir, stem tname @ ''_summary.txt'')"
    "read_text v (TransDir, tname) = Inr raw"
    "\<not> length (strip raw) < 100"
    "fst (if use_extractive then extractive_summary env' (strip raw) v
         else abstractive_summary (strip raw) summarizer v) = Inr summary_text"
    "write_fault env' (SummDir, stem tname @ ''_summary.txt'') = NoFault"
    "write_fault env' (MetaDir, stem tname @ ''.json'') = NoFault"
  then show "map_of (files (summarize_item env' use_extractive summarizer v tname))
          (MetaDir, stem tname @ ''.json'')
        = Some (Json (JObj (AList.update ''summary_path''
             (JStr (path_str env' (SummDir, stem tname @ ''_summary.txt''))) kvs')))"
    by (rule summarizer_keeps_fields)
qed (simp_all add: map_of_update_eq)

theorem metadata_non_destructive_witness:
  "map_of (files demo_world) (MetaDir, stem ''y.mp3'' @ ''.json'')
     = Some (Json (JObj [(''video_id'', JStr ''y''),
                         (''audio_path'', JStr ''/app/data/audio/y.mp3'')]))
   \<and> map_of (files (transcribe_item demo_env demo_model demo_world ''y.mp3''))
         (MetaDir, stem ''y.mp3'' @ ''.json'')
       = Some (Json (JObj (AList.update ''transcript_path''
            (JStr (path_str demo_env (TransDir, stem ''y.mp3'' @ ''.txt'')))
            [(''video_id'', JStr ''y''), (''audio_path'', JStr ''/app/data/audio/y.mp3'')])))
   \<and> map_of (files (transcribe_item demo_env demo_model demo_world ''y.mp3''))
         (MetaDir, ''y.json'')
       = Some (Json (JObj [(''video_id'', JStr ''y''),
                           (''audio_path'', JStr ''/app/data/audio/y.mp3''),
                           (''transcript_path'', JStr ''/app/data/transcripts/y.txt'')]))
   \<and> map_of (files summ_world) (MetaDir, stem ''a.txt'' @ ''.json'')
       = Some (Json (JObj [(''video_id'', JStr ''a''),
                           (''audio_path'', JStr ''/app/data/audio/a.mp3''),
                           (''transcript_path'', JStr ''/app/data/transcripts/a.txt'')]))
   \<and> map_of (files (summarize_item demo_env True None summ_world ''a.txt''))
         (MetaDir, stem ''a.txt'' @ ''.json'')
       = Some (Json (JObj (AList.update ''summary_path''
            (JStr (path_str demo_env (SummDir, stem ''a.txt'' @ ''_summary.txt'')))
            [(''video_id'', JStr ''a''), (''audio_path'', JStr ''/app/data/audio/a.mp3''),
             (''transcript_path'', JStr ''/app/data/transcripts/a.txt'')])))
   \<and> map_of (files (summarize_item demo_env True None summ_world ''a.txt''))
         (MetaDir, ''a.json'')
       = Some (Json (JObj [(''video_id'', JStr ''a''),
                           (''audio_path'', JStr ''/app/data/audio/a.mp3''),
                           (''transcript_path'', JStr ''/app/data/transcripts/a.txt''),
                           (''summary_path'', JStr ''/app/data/summaries/a_summary.txt'')]))"
proof -
  have t1: "map_of (files demo_world) (MetaDir, stem ''y.mp3'' @ ''.json'')
     = Some (Json (JObj [(''video_id'', JStr ''y''),
                         (''audio_path'', JStr ''/app/data/audio/y.mp3'')]))"
    by code_simp
  have t2: "\<not> exists_file demo_world (TransDir, stem ''y.mp3'' @ ''.txt'')"
    by code_simp
  have t3: "demo_model (path_str demo_env (AudioDir, ''y.mp3''))
     = Inr [\<lparr>seg_start = 0, seg_end = 2, seg_text = '' hello ''\<rparr>,
            \<lparr>seg_start = 2, seg_end = 3, seg_text = ''world ''\<rparr>]"
    by (simp add: demo_model_def)
  have t4: "write_fault demo_env (TransDir, stem ''y.mp3'' @ ''.txt'') = NoFault"
    "write_fault demo_env (TransDir, stem ''y.mp3'' @ ''.json'') = NoFault"
    "write_fault demo_env (MetaDir, stem ''y.mp3'' @ ''.json'') = NoFault"
    by (simp_all add: demo_env_def)
  have t5: "map_of (files (transcribe_item demo_env demo_model demo_world ''y.mp3''))
         (MetaDir, ''y.json'')
       = Some (Json (JObj [(''video_id'', JStr ''y''),
                           (''audio_path'', JStr ''/app/data/audio/y.mp3''),
                           (''transcript_path'', JStr ''/app/data/transcripts/y.txt'')]))"
    by code_simp
  have s1: "map_of (files summ_world) (MetaDir, stem ''a.txt'' @ ''.json'')
       = Some (Json (JObj [(''video_id'', JStr ''a''),
                           (''audio_path'', JStr ''/app/data/audio/a.mp3''),
                           (''transcript_path'', JStr ''/app/data/transcripts/a.txt'')]))"
    by code_simp
  have s2: "\<not> exists_file summ_world (SummDir, stem ''a.txt'' @ ''_summary.txt'')"
    by code_simp
  have s3: "read_text summ_world (TransDir, ''a.txt'') = Inr (replicate 120 CHR ''a'')"
    by code_simp
  have s4: "\<not> length (strip (replicate 120 CHR ''a'')) < 100"
    by code_simp
  have s5: "fst (if True then extractive_summary demo_env (strip (replicate 120 CHR ''a'')) summ_world
                 else abstractive_summary (strip (replicate 120 CHR ''a'')) None summ_world)
              = Inr (join '' '' [take 10 (strip (replicate 120 CHR ''a''))])"
    by (simp add: extractive_summary_def demo_env_def)
  have s6: "write_fault demo_env (SummDir, stem ''a.txt'' @ ''_summary.txt'') = NoFault"
    "write_fault demo_env (MetaDir, stem ''a.txt'' @ ''.json'') = NoFault"
    by (simp_all add: demo_env_def)
  have s7: "map_of (files (summarize_item demo_env True None summ_world ''a.txt''))
         (MetaDir, ''a.json'')
       = Some (Json (JObj [(''video_id'', JStr ''a''),
                           (''audio_path'', JStr ''/app/data/audio/a.mp3''),
                           (''transcript_path'', JStr ''/app/data/transcripts/a.txt''),
                           (''summary_path'', JStr ''/app/data/summaries/a_summary.txt'')]))"
    by code_simp
  note all = metadata_non_destructive
    [of demo_world "''y.mp3''" _ demo_model demo_env _ summ_world "''a.txt''" _ _ True
        demo_env None]
  note tr = all [THEN conjunct1, THEN mp,
      OF conjI [OF t1 conjI [OF t2 conjI [OF t3 conjI [OF t4(1) conjI [OF t4(2) t4(3)]]]]],
      THEN conjunct1]
  note su = all [THEN conjunct2, THEN mp,
      OF conjI [OF s1 conjI [OF s2 conjI [OF s3 conjI [OF s4 conjI [OF s5 conjI [OF s6(1) s6(2)]]]]]],
      THEN conjunct1]
  from t1 tr t5 s1 su s7 show ?thesis
    by - (intro conjI; assumption)
qed

section \<open>One turn and a whole run of the Fetcher\<close>








lemma trace_store_audio [simp]: "trace (store_audio names w) = trace w"
  unfolding store_audio_def by (induction names arbitrary: w) simp_all




section \<open>Audio lookup and the record of an item\<close>





section \<open>The audio files the Transcriber visits\<close>

lemma transcribe_try_trace:
  "\<exists>es. trace (snd (transcribe_try env model name w))
          = trace w @ Transcribe (path_str env (AudioDir, name)) # es"
proof (cases "model (path_str env (AudioDir, name))")
  case (Inl x)
  then show ?thesis
    by (simp add: transcribe_try_def transcribe_audio_def Let_def)
next
  case (Inr segs)
  let ?w1 = "emit (Transcribe (path_str env (AudioDir, name))) w"
  let ?S = "transcript_paths (stem name)"
  let ?E = "Wrote ` transcript_paths (stem name)"
  let ?text = "join '' '' (map (\<lambda>seg. strip (seg_text seg)) segs)"
  let ?segs = "JArr (map (\<lambda>seg. JObj [(''start'', JNum (seg_start seg)),
                                        (''end'', JNum (seg_end seg)),
                                        (''text'', JStr (strip (seg_text seg)))]) segs)"
  let ?rest = "then_do (write_file env (TransDir, stem name @ ''.txt'') (Text ?text) ?w1)
      (\<lambda>_ w2. then_do (write_file env (TransDir, stem name @ ''.json'') (Json ?segs) w2)
        (\<lambda>_ w3. update_meta env (stem name) ''transcript_path''
                   (TransDir, stem name @ ''.txt'') w3))"
  have eq: "transcribe_try env model name w = ?rest"
    using Inr by (simp add: transcribe_try_def transcribe_audio_def Let_def)
  have "changes_only ?S ?E ?w1 (snd ?rest)"
    apply (rule changes_only_then_do)
     apply (rule changes_only_mono [OF changes_only_write_file])
      apply (simp add: transcript_paths_def)
     apply (simp add: transcript_paths_def)
    apply (rule changes_only_then_do)
     apply (rule changes_only_mono [OF changes_only_write_file])
      apply (simp add: transcript_paths_def)
     apply (simp add: transcript_paths_def)
    apply (rule changes_only_mono [OF changes_only_update_meta])
     apply (simp add: transcript_paths_def)
    apply (simp add: transcript_paths_def)
    done
  then obtain es where "trace (snd ?rest) = trace ?w1 @ es"
    using changes_only_trace by blast
  then show ?thesis by (simp add: eq)
qed

lemma transcribe_item_trace:
  assumes "\<not> exists_file w (TransDir, stem name @ ''.txt'')"
  shows "\<exists>es. trace (transcribe_item env model w name)
              = trace w @ Transcribe (path_str env (AudioDir, name)) # es"
proof -
  obtain es1 where es1: "trace (snd (transcribe_try env model name w))
          = trace w @ Transcribe (path_str env (AudioDir, name)) # es1"
    using transcribe_try_trace by blast
  obtain es2 where "trace (finish_item name (transcribe_try env model name w))
          = trace (snd (transcribe_try env model name w)) @ es2"
    using finish_item_trace by blast
  then show ?thesis
    by (simp add: transcribe_item_fresh [OF assms] es1)
qed

lemma transcriber_run_events:
  "\<exists>es. trace (foldl (transcribe_item env model) w ns) = trace w @ es
        \<and> set es \<subseteq> (\<Union>n \<in> set ns. transcribe_events env n)"
proof -
  have "changes_only (\<Union>n \<in> set ns. transcript_paths (stem n))
          (\<Union>n \<in> set ns. transcribe_events env n) w (foldl (transcribe_item env model) w ns)"
    by (rule changes_only_foldl) (rule changes_only_transcribe_item)
  then show ?thesis by (rule changes_only_trace)
qed

lemma transcript_txt_notin:
  "stem m \<noteq> a \<Longrightarrow> (TransDir, a @ ''.txt'') \<notin> transcript_paths (stem m)"
  by (simp add: transcript_paths_def)

lemma transcriber_run_reaches:
  assumes "name \<in> set ns"
    and "\<forall>m \<in> set ns. m \<noteq> name \<longrightarrow> stem m \<noteq> stem name"
    and "\<not> exists_file w (TransDir, stem name @ ''.txt'')"
  shows "\<exists>es. trace (foldl (transcribe_item env model) w ns) = trace w @ es
           \<and> Transcribe (path_str env (AudioDir, name)) \<in> set es"
  using assms
proof (induction ns arbitrary: w)
  case Nil
  then show ?case by simp
next
  case (Cons m ns)
  let ?w1 = "transcribe_item env model w m"
  let ?e = "Transcribe (path_str env (AudioDir, name))"
  show ?case
  proof (cases "m = name")
    case True
    obtain es1 where es1: "trace ?w1 = trace w @ ?e # es1"
      using transcribe_item_trace [OF Cons.prems(3)] True by blast
    obtain es2 where es2: "trace (foldl (transcribe_item env model) ?w1 ns) = trace ?w1 @ es2"
      using transcriber_run_events by blast
    have "trace (foldl (transcribe_item env model) w (m # ns)) = trace w @ (?e # es1 @ es2)"
      by (simp add: es1 es2)
    moreover have "?e \<in> set (?e # es1 @ es2)" by simp
    ultimately show ?thesis by blast
  next
    case False
    then have diff: "stem m \<noteq> stem name" using Cons.prems(2) by simp
    have in_rest: "name \<in> set ns" using Cons.prems(1) False by auto
    have uniq: "\<forall>m \<in> set ns. m \<noteq> name \<longrightarrow> stem m \<noteq> stem name"
      using Cons.prems(2) by simp
    have "exists_file ?w1 (TransDir, stem name @ ''.txt'')
            = exists_file w (TransDir, stem name @ ''.txt'')"
      by (rule exists_file_cong, rule changes_only_files [OF changes_only_transcribe_item])
        (rule transcript_txt_notin [OF diff])
    then have fresh: "\<not> exists_file ?w1 (TransDir, stem name @ ''.txt'')"
      using Cons.prems(3) by simp
    obtain es2 where es2: "trace (foldl (transcribe_item env model) ?w1 ns) = trace ?w1 @ es2"
      "?e \<in> set es2"
      using Cons.IH [OF in_rest uniq fresh] by blast
    obtain es1 where es1: "trace ?w1 = trace w @ es1"
      using changes_only_trace [OF changes_only_transcribe_item] by blast
    have "trace (foldl (transcribe_item env model) w (m # ns)) = trace w @ (es1 @ es2)"
      by (simp add: es1 es2)
    moreover have "?e \<in> set (es1 @ es2)" using es2(2) by simp
    ultimately show ?thesis by blast
  qed
qed

lemma set_audio_files:
  "set (audio_files w) = {n \<in> set (listdir w AudioDir). suffix ''.mp3'' n}"
  by (auto simp: audio_files_def)

lemma sorted_audio_files: "sorted (audio_files w)"
  by (simp add: audio_files_def)

lemma distinct_audio_files: "distinct (listdir w AudioDir) \<Longrightarrow> distinct (audio_files w)"
  by (simp add: audio_files_def)

lemma Transcribe_in_events:
  "Transcribe p \<in> transcribe_events env n \<Longrightarrow> p = path_str env (AudioDir, n)"
  by (auto simp: transcribe_events_def)

lemma transcriber_main_loaded:
  "whisper_model env = Inr model \<Longrightarrow>
   snd (transcriber_main env w) = foldl (transcribe_item env model) w (audio_files w)"
  by (simp add: transcriber_main_def)

lemma transcriber_main_unloaded:
  "whisper_model env = Inl x \<Longrightarrow> snd (transcriber_main env w) = w"
  by (simp add: transcriber_main_def)

lemma transcriber_main_reaches:
  assumes model: "whisper_model env = Inr model"
    and n: "name \<in> set (audio_files w)"
    and u: "\<forall>m \<in> set (audio_files w). m \<noteq> name \<longrightarrow> stem m \<noteq> stem name"
    and f: "\<not> exists_file w (TransDir, stem name @ ''.txt'')"
  shows "Transcribe (path_str env (AudioDir, name))
           \<in> set (new_events w (snd (transcriber_main env w)))"
proof -
  from transcriber_run_reaches [OF n u f, where env = env and model = model]
  obtain es where es: "trace (foldl (transcribe_item env model) w (audio_files w)) = trace w @ es"
      "Transcribe (path_str env (AudioDir, name)) \<in> set es"
    by (elim exE conjE)
  have "new_events w (foldl (transcribe_item env model) w (audio_files w)) = es"
    using es(1) by (rule new_events_append)
  with es(2) show ?thesis
    by (simp only: transcriber_main_loaded [OF model])
qed

lemma transcriber_main_only:
  assumes ev: "Transcribe (path_str env (AudioDir, name))
                \<in> set (new_events w (snd (transcriber_main env w)))"
  shows "name \<in> set (audio_files w)"
proof (cases "whisper_model env")
  case (Inl x)
  have "new_events w (snd (transcriber_main env w)) = []"
    by (simp add: transcriber_main_unloaded [OF Inl] new_events_def)
  with ev show ?thesis by simp
next
  case (Inr model)
  from transcriber_run_events [of env model w "audio_files w"]
  obtain es where es: "trace (foldl (transcribe_item env model) w (audio_files w)) = trace w @ es"
      "set es \<subseteq> (\<Union>n \<in> set (audio_files w). transcribe_events env n)"
    by (elim exE conjE)
  have "new_events w (foldl (transcribe_item env model) w (audio_files w)) = es"
    using es(1) by (rule new_events_append)
  with ev have "Transcribe (path_str env (AudioDir, name)) \<in> set es"
    by (simp only: transcriber_main_loaded [OF Inr])
  from this es(2) have "Transcribe (path_str env (AudioDir, name))
      \<in> (\<Union>n \<in> set (audio_files w). transcribe_events env n)" by (rule rev_subsetD)
  then obtain n where n: "n \<in> set (audio_files w)"
      "Transcribe (path_str env (AudioDir, name)) \<in> transcribe_events env n"
    by (elim UN_E)
  from Transcribe_in_events [OF n(2)] have "name = n" by simp
  with n(1) show ?thesis by simp
qed

text \<open>
  C2, as the code has it.  The Transcriber lists exactly the files of the audio directory
  whose name ends in \<open>.mp3\<close>, in ascending order of file name (code point by code point),
  each once when the directory listing has no duplicate.  When the model loads, the run
  is the loop over that list, in that order; every listed file whose transcript text is
  absent, and whose stem no other listed file has, is passed to the model; and the only
  files passed to the model are files of the audio directory ending in \<open>.mp3\<close>.  A file
  with another extension, such as one the Fetcher found by the prefix fallback, is not
  visited.
\<close>

theorem transcriber_visits_mp3_files:
  "set (audio_files w) = {n \<in> set (listdir w AudioDir). suffix ''.mp3'' n}
   \<and> sorted (audio_files w)
   \<and> (distinct (listdir w AudioDir) \<longrightarrow> distinct (audio_files w))
   \<and> (\<forall>model. whisper_model env = Inr model \<longrightarrow>
        snd (transcriber_main env w) = foldl (transcribe_item env model) w (audio_files w) \<and>
        (\<forall>name. name \<in> set (audio_files w) \<and>
                (\<forall>m \<in> set (audio_files w). m \<noteq> name \<longrightarrow> stem m \<noteq> stem name) \<and>
                \<not> exists_file w (TransDir, stem name @ ''.txt'') \<longrightarrow>
           Transcribe (path_str env (AudioDir, name))
             \<in> set (new_events w (snd (transcriber_main env w)))))
   \<and> (\<forall>name. Transcribe (path_str env (AudioDir, name))
                \<in> set (new_events w (snd (transcriber_main env w))) \<longrightarrow>
        name \<in> set (listdir w AudioDir) \<and> suffix ''.mp3'' name)"
proof -
  have a: "set (audio_files w) = {n \<in> set (listdir w AudioDir). suffix ''.mp3'' n}"
    by (rule set_audio_files)
  have b: "sorted (audio_files w)" by (rule sorted_audio_files)
  have c: "distinct (listdir w AudioDir) \<longrightarrow> distinct (audio_files w)"
    by (rule impI) (rule distinct_audio_files)
  have d: "\<forall>model. whisper_model env = Inr model \<longrightarrow>
        snd (transcriber_main env w) = foldl (transcribe_item env model) w (audio_files w) \<and>
        (\<forall>name. name \<in> set (audio_files w) \<and>
                (\<forall>m \<in> set (audio_files w). m \<noteq> name \<longrightarrow> stem m \<noteq> stem name) \<and>
                \<not> exists_file w (TransDir, stem name @ ''.txt'') \<longrightarrow>
           Transcribe (path_str env (AudioDir, name))
             \<in> set (new_events w (snd (transcriber_main env w))))"
  proof (rule allI, rule impI, rule conjI)
    fix model assume model: "whisper_model env = Inr model"
    show "snd (transcriber_main env w) = foldl (transcribe_item env model) w (audio_files w)"
      using model by (rule transcriber_main_loaded)
    show "\<forall>name. name \<in> set (audio_files w) \<and>
                (\<forall>m \<in> set (audio_files w). m \<noteq> name \<longrightarrow> stem m \<noteq> stem name) \<and>
                \<not> exists_file w (TransDir, stem name @ ''.txt'') \<longrightarrow>
           Transcribe (path_str env (AudioDir, name))
             \<in> set (new_events w (snd (transcriber_main env w)))"
    proof (rule allI, rule impI, elim conjE)
      fix name
      assume "name \<in> set (audio_files w)"
        and "\<forall>m \<in> set (audio_files w). m \<noteq> name \<longrightarrow> stem m \<noteq> stem name"
        and "\<not> exists_file w (TransDir, stem name @ ''.txt'')"
      with model show "Transcribe (path_str env (AudioDir, name))
             \<in> set (new_events w (snd (transcriber_main env w)))"
        by (rule transcriber_main_reaches)
    qed
  qed
  have e: "\<forall>name. Transcribe (path_str env (AudioDir, name))
                \<in> set (new_events w (snd (transcriber_main env w))) \<longrightarrow>
        name \<in> set (listdir w AudioDir) \<and> suffix ''.mp3'' name"
  proof (rule allI, rule impI)
    fix name
    assume "Transcribe (path_str env (AudioDir, name))
                \<in> set (new_events w (snd (transcriber_main env w)))"
    then have "name \<in> set (audio_files w)" by (rule transcriber_main_only)
    then show "name \<in> set (listdir w AudioDir) \<and> suffix ''.mp3'' name"
      by (simp add: set_audio_files)
  qed
  from a b c d e show ?thesis by - (intro conjI; assumption)
qed

text \<open>
  C2 as stated fails after a run of the Fetcher that stored \<open>abc.webm\<close> through the
  prefix fallback and recorded it as the audio path of \<open>abc\<close>: the Transcriber lists no
  audio file and its run does nothing.
\<close>

theorem transcriber_misses_fallback_audio:
  "listdir (snd (download fetch_env ''https://v/list'' empty_world)) AudioDir = [''abc.webm'']
   \<and> map_of (files (snd (download fetch_env ''https://v/list'' empty_world)))
         (MetaDir, ''abc.json'')
       = Some (Json (JObj [(''video_id'', JStr ''abc''), (''title'', JStr ''A talk''),
            (''webpage_url'', JStr ''https://v/abc''), (''duration'', JNum 61),
            (''audio_path'', JStr ''/app/data/audio/abc.webm'')]))
   \<and> audio_files (snd (download fetch_env ''https://v/list'' empty_world)) = []
   \<and> new_events (snd (download fetch_env ''https://v/list'' empty_world))
         (snd (transcriber_main fetch_env
                 (snd (download fetch_env ''https://v/list'' empty_world)))) = []"
  by (intro conjI; code_simp)

theorem transcriber_visits_mp3_files_witness:
  "whisper_model demo_env = Inr demo_model
   \<and> audio_files mixed_world = [''B.mp3'', ''a.mp3'', ''b.mp3'']
   \<and> sorted (audio_files mixed_world)
   \<and> distinct (audio_files mixed_world)
   \<and> Transcribe (path_str demo_env (AudioDir, ''a.mp3''))
       \<in> set (new_events mixed_world (snd (transcriber_main demo_env mixed_world)))
   \<and> Transcribe (path_str demo_env (AudioDir, ''abc.webm''))
       \<notin> set (new_events mixed_world (snd (transcriber_main demo_env mixed_world)))"
proof -
  have model: "whisper_model demo_env = Inr demo_model"
    by (simp add: demo_env_def)
  have listed: "audio_files mixed_world = [''B.mp3'', ''a.mp3'', ''b.mp3'']"
    by code_simp
  have dist: "distinct (listdir mixed_world AudioDir)"
    by code_simp
  have item: "''a.mp3'' \<in> set (audio_files mixed_world) \<and>
      (\<forall>m \<in> set (audio_files mixed_world). m \<noteq> ''a.mp3'' \<longrightarrow> stem m \<noteq> stem ''a.mp3'') \<and>
      \<not> exists_file mixed_world (TransDir, stem ''a.mp3'' @ ''.txt'')"
    by code_simp
  have other: "\<not> (''abc.webm'' \<in> set (listdir mixed_world AudioDir) \<and> suffix ''.mp3'' ''abc.webm'')"
    by code_simp
  note all = transcriber_visits_mp3_files [of mixed_world demo_env]
  note srt = all [THEN conjunct2, THEN conjunct1]
  note dst = all [THEN conjunct2, THEN conjunct2, THEN conjunct1, THEN mp, OF dist]
  note vis = all [THEN conjunct2, THEN conjunct2, THEN conjunct2, THEN conjunct1, THEN spec,
      THEN mp, OF model, THEN conjunct2, THEN spec, THEN mp, OF item]
  note only = all [THEN conjunct2, THEN conjunct2, THEN conjunct2, THEN conjunct2, THEN spec,
      of "''abc.webm''"]
  from only other
  have skip: "Transcribe (path_str demo_env (AudioDir, ''abc.webm''))
       \<notin> set (new_events mixed_world (snd (transcriber_main demo_env mixed_world)))"
    by blast
  from model listed srt dst vis skip show ?thesis
    by - (intro conjI; assumption)
qed

end
